theory Spec2Isabelle
  imports Main "HOL-Library.Word" "HOL-Library.Multiset"
begin

section \<open>The declarations of \<^verbatim>\<open>hptt.h\<close>\<close>

text \<open>
  The header declares the plan representation (\<^verbatim>\<open>ComputeNode\<close>, \<^verbatim>\<open>Plan\<close>) and the class
  template \<^verbatim>\<open>Transpose<floatType>\<close>.  Member names of the source end in an underscore,
  which is not a legal last character of a name here: the underscore is written as a prime
  (\<^verbatim>\<open>alpha_\<close> is \<open>alpha'\<close>, \<^verbatim>\<open>numTasks_\<close> is \<open>numTasks'\<close>); \<^verbatim>\<open>end\<close> and \<^verbatim>\<open>next\<close> are
  reserved words and get a prime as well.
\<close>

subsection \<open>Machine integers\<close>

text \<open>
  \<^verbatim>\<open>size_t\<close> is an unsigned integer of \<open>w\<close> bits, the type \<open>'w word\<close>; the conversion of
  the \<^verbatim>\<open>int\<close> constant \<^verbatim>\<open>-1\<close> to it is \<open>of_int (- 1)\<close>.  \<^verbatim>\<open>int\<close> is the 32-bit signed
  integer of the platforms the library builds for.  Its values are integers between
  \<open>INT_MIN\<close> and \<open>INT_MAX\<close>; an arithmetic result outside that range is undefined behaviour
  in C++, which the model reports as the error \<open>SignedOverflow\<close> instead of continuing.
\<close>

definition INT_MAX :: int where
  "INT_MAX = 2 ^ 31 - 1"

definition INT_MIN :: int where
  "INT_MIN = - (2 ^ 31)"

definition in_int_range :: "int \<Rightarrow> bool" where
  "in_int_range x = (INT_MIN \<le> x \<and> x \<le> INT_MAX)"

datatype error = SignedOverflow | BadArrayNewLength | LengthError

subsection \<open>\<^verbatim>\<open>ComputeNode\<close>\<close>

text \<open>
  \<^verbatim>\<open>
  class ComputeNode{
     public:
        ComputeNode() : start(-1), end(-1), inc(-1), lda(-1), ldb(-1), next(nullptr) {}
     size_t start; size_t end; size_t inc; size_t lda; size_t ldb;
     ComputeNode *next;
  };
  \<close>
  The type parameter \<open>'s\<close> is \<^verbatim>\<open>size_t\<close>; a null \<^verbatim>\<open>next\<close> is \<open>None\<close>, and a node owns its
  successor (the destructor deletes it), so the successor is a value of the node.
\<close>

datatype 's ComputeNode = ComputeNode
  (start: 's) (end': 's) (inc: 's) (lda: 's) (ldb: 's) (next': "'s ComputeNode option")

definition ComputeNode_default :: "'w::len word ComputeNode" where
  "ComputeNode_default =
     ComputeNode (of_int (- 1)) (of_int (- 1)) (of_int (- 1)) (of_int (- 1)) (of_int (- 1)) None"

subsection \<open>\<^verbatim>\<open>Plan\<close>\<close>

text \<open>
  \<^verbatim>\<open>
  Plan(std::vector<int>loopOrder, std::vector<int>numThreadsAtLoop)
     : rootNodes_(nullptr), loopOrder_(loopOrder), numThreadsAtLoop_(numThreadsAtLoop) {
     numTasks_ = 1;
     for(auto nt : numThreadsAtLoop)
        numTasks_ *= nt;
     rootNodes_ = new ComputeNode[numTasks_];
  }
  int getNumTasks() const { return numTasks_; }
  \<close>
  \<^verbatim>\<open>rootNodes_\<close> is a null pointer (\<open>None\<close>) or an owned array of nodes (\<open>Some\<close> of its
  elements).  The array form of \<^verbatim>\<open>new\<close> with a negative \<^verbatim>\<open>int\<close> count throws
  \<^verbatim>\<open>std::bad_array_new_length\<close>, and the constructor ends with that exception; with the count
  0 it returns an empty array.  Memory is taken to be sufficient for any other count.
\<close>

record 's Plan =
  numTasks' :: int
  loopOrder' :: "int list"
  numThreadsAtLoop' :: "int list"
  rootNodes' :: "'s ComputeNode list option"

definition Plan_default :: "'s Plan" where
  "Plan_default =
     \<lparr>numTasks' = 0, loopOrder' = [], numThreadsAtLoop' = [], rootNodes' = None\<rparr>"

text \<open>The loop \<^verbatim>\<open>for(auto nt : numThreadsAtLoop) numTasks_ *= nt;\<close> from the current value.\<close>

fun numTasks_loop :: "int \<Rightarrow> int list \<Rightarrow> error + int" where
  "numTasks_loop numTasks [] = Inr numTasks"
| "numTasks_loop numTasks (nt # rest) =
     (if in_int_range (numTasks * nt) then numTasks_loop (numTasks * nt) rest
      else Inl SignedOverflow)"

text \<open>The values that loop assigns to \<^verbatim>\<open>numTasks_\<close>, one for each entry, in order.\<close>

fun running_products :: "int \<Rightarrow> int list \<Rightarrow> int list" where
  "running_products numTasks [] = []"
| "running_products numTasks (nt # rest) =
     (numTasks * nt) # running_products (numTasks * nt) rest"

definition Plan_ctor :: "int list \<Rightarrow> int list \<Rightarrow> error + 'w::len word Plan" where
  "Plan_ctor loopOrder numThreadsAtLoop =
     (case numTasks_loop 1 numThreadsAtLoop of
        Inl e \<Rightarrow> Inl e
      | Inr n \<Rightarrow>
          if n < 0 then Inl BadArrayNewLength
          else Inr \<lparr>numTasks' = n, loopOrder' = loopOrder,
                    numThreadsAtLoop' = numThreadsAtLoop,
                    rootNodes' = Some (replicate (nat n) ComputeNode_default)\<rparr>)"

definition getNumTasks :: "'s Plan \<Rightarrow> int" where
  "getNumTasks p = numTasks' p"

subsection \<open>Blocking constants\<close>

text \<open>
  \<^verbatim>\<open>
  #define REGISTER_BITS 256 // AVX
  #ifdef HPTT_ARCH_ARM
  #undef REGISTER_BITS
  #define REGISTER_BITS 128 // ARM
  #endif
  static constexpr int blocking_micro_ = REGISTER_BITS / 8 / sizeof(floatType);
  static constexpr int blocking_ = blocking_micro_ * 4;
  \<close>
  The build is for AVX unless \<^verbatim>\<open>HPTT_ARCH_ARM\<close> is defined.  The constants depend on the
  element type through \<^verbatim>\<open>sizeof(floatType)\<close> only, which is their second argument here.
  \<^verbatim>\<open>REGISTER_BITS / 8\<close> is 32 or 16 and the two constants are at most 128, so neither the
  conversion of \<^verbatim>\<open>REGISTER_BITS / 8\<close> to \<^verbatim>\<open>size_t\<close> nor that of the quotient to \<^verbatim>\<open>int\<close>
  changes a value; both divisions truncate.
\<close>

datatype arch = AVX | ARM

fun REGISTER_BITS :: "arch \<Rightarrow> nat" where
  "REGISTER_BITS AVX = 256"
| "REGISTER_BITS ARM = 128"

text \<open>The four element types the header instantiates the template for, and their sizes in bytes.\<close>

datatype floatType = Float | Double | FloatComplex | DoubleComplex

fun sizeof :: "floatType \<Rightarrow> nat" where
  "sizeof Float = 4"
| "sizeof Double = 8"
| "sizeof FloatComplex = 8"
| "sizeof DoubleComplex = 16"

definition blocking_micro' :: "arch \<Rightarrow> nat \<Rightarrow> nat" where
  "blocking_micro' a sizeof_floatType = REGISTER_BITS a div 8 div sizeof_floatType"

definition blocking' :: "arch \<Rightarrow> nat \<Rightarrow> nat" where
  "blocking' a sizeof_floatType = blocking_micro' a sizeof_floatType * 4"

subsection \<open>\<^verbatim>\<open>Transpose\<close>\<close>

text \<open>
  The data members of \<^verbatim>\<open>Transpose<floatType>\<close>, in the order of their declaration.  \<open>'a\<close>
  is \<^verbatim>\<open>floatType\<close> and \<open>'s\<close> is \<^verbatim>\<open>size_t\<close>.  The buffers \<^verbatim>\<open>A_\<close> and \<^verbatim>\<open>B_\<close> are borrowed
  pointers, kept as addresses.  \<^verbatim>\<open>masterPlan_\<close> is a shared pointer, \<open>None\<close> when null.
  \<^verbatim>\<open>blocking_constStride1_\<close> is an \<^verbatim>\<open>int\<close> member that a constructor may leave without an
  initialiser; its value is then indeterminate, which is \<open>None\<close>.
\<close>

datatype SelectionMethod = ESTIMATE | MEASURE | PATIENT | CRAZY

record ('s, 'a) Transpose =
  A' :: nat
  B' :: nat
  alpha' :: 'a
  beta' :: 'a
  dim' :: int
  sizeA' :: "'s list"
  perm' :: "int list"
  outerSizeA' :: "'s list"
  outerSizeB' :: "'s list"
  lda' :: "'s list"
  ldb' :: "'s list"
  numThreads' :: int
  selectedParallelStrategyId' :: int
  masterPlan' :: "'s Plan option"
  selectionMethod' :: SelectionMethod
  blocking_constStride1' :: "int option"

text \<open>
  The state of a new object after the member initialisers of the primary constructor and
  the six \<^verbatim>\<open>resize(dim)\<close> calls that open its body:
  \<^verbatim>\<open>
  A_(A), B_(B), alpha_(alpha), beta_(beta), dim_(-1), numThreads_(numThreads),
  masterPlan_(nullptr), blocking_constStride1_(1), selectionMethod_(selectionMethod),
  selectedParallelStrategyId_(-1)
  {
     sizeA_.resize(dim); perm_.resize(dim); outerSizeA_.resize(dim);
     outerSizeB_.resize(dim); lda_.resize(dim); ldb_.resize(dim);
  \<close>
  The vectors start empty and \<^verbatim>\<open>resize\<close> fills them with \<open>dim\<close> zeros.  A negative \<open>dim\<close>
  becomes, as a \<^verbatim>\<open>size_t\<close>, a size that no vector can have, and the first \<^verbatim>\<open>resize\<close> throws
  \<^verbatim>\<open>std::length_error\<close>.  The rest of the body calls \<^verbatim>\<open>verifyParameter\<close>, \<^verbatim>\<open>fuseIndices\<close> and
  \<^verbatim>\<open>computeLeadingDimensions\<close>, whose bodies are not in the header; the body itself assigns
  to no member.
\<close>

definition Transpose_init ::
  "int \<Rightarrow> nat \<Rightarrow> 'a \<Rightarrow> nat \<Rightarrow> 'a \<Rightarrow> SelectionMethod \<Rightarrow> int
    \<Rightarrow> error + ('w::len word, 'a) Transpose" where
  "Transpose_init dim A alpha B beta selectionMethod numThreads =
     (if dim < 0 then Inl LengthError
      else Inr
        \<lparr>A' = A, B' = B, alpha' = alpha, beta' = beta, dim' = - 1,
         sizeA' = replicate (nat dim) 0, perm' = replicate (nat dim) 0,
         outerSizeA' = replicate (nat dim) 0, outerSizeB' = replicate (nat dim) 0,
         lda' = replicate (nat dim) 0, ldb' = replicate (nat dim) 0,
         numThreads' = numThreads, selectedParallelStrategyId' = - 1,
         masterPlan' = None, selectionMethod' = selectionMethod,
         blocking_constStride1' = Some 1\<rparr>)"

text \<open>
  The copy constructor.  Its initialiser list names every data member but
  \<^verbatim>\<open>blocking_constStride1_\<close>, which is therefore default-initialised: indeterminate.
  \<^verbatim>\<open>
  Transpose(const Transpose &other) : A_(other.A_), B_(other.B_),
     alpha_(other.alpha_), beta_(other.beta_), dim_(other.dim_),
     numThreads_(other.numThreads_), masterPlan_(other.masterPlan_),
     selectionMethod_(other.selectionMethod_),
     selectedParallelStrategyId_(other.selectedParallelStrategyId_),
     sizeA_(other.sizeA_), perm_(other.perm_), outerSizeA_(other.outerSizeA_),
     outerSizeB_(other.outerSizeB_), lda_(other.lda_), ldb_(other.ldb_) { }
  \<close>
\<close>

definition Transpose_copy :: "('s, 'a) Transpose \<Rightarrow> ('s, 'a) Transpose" where
  "Transpose_copy other =
     \<lparr>A' = A' other, B' = B' other, alpha' = alpha' other, beta' = beta' other,
      dim' = dim' other,
      sizeA' = sizeA' other, perm' = perm' other,
      outerSizeA' = outerSizeA' other, outerSizeB' = outerSizeB' other,
      lda' = lda' other, ldb' = ldb' other,
      numThreads' = numThreads' other,
      selectedParallelStrategyId' = selectedParallelStrategyId' other,
      masterPlan' = masterPlan' other, selectionMethod' = selectionMethod' other,
      blocking_constStride1' = None\<rparr>"

text \<open>The getters and setters.\<close>

definition getNumThreads :: "('s, 'a) Transpose \<Rightarrow> int" where
  "getNumThreads t = numThreads' t"

definition setNumThreads :: "int \<Rightarrow> ('s, 'a) Transpose \<Rightarrow> ('s, 'a) Transpose" where
  "setNumThreads numThreads t = t\<lparr>numThreads' := numThreads\<rparr>"

definition setParallelStrategy :: "int \<Rightarrow> ('s, 'a) Transpose \<Rightarrow> ('s, 'a) Transpose" where
  "setParallelStrategy strategyId t = t\<lparr>selectedParallelStrategyId' := strategyId\<rparr>"

definition getAlpha :: "('s, 'a) Transpose \<Rightarrow> 'a" where
  "getAlpha t = alpha' t"

definition getBeta :: "('s, 'a) Transpose \<Rightarrow> 'a" where
  "getBeta t = beta' t"

definition setAlpha :: "'a \<Rightarrow> ('s, 'a) Transpose \<Rightarrow> ('s, 'a) Transpose" where
  "setAlpha alpha t = t\<lparr>alpha' := alpha\<rparr>"

definition setBeta :: "'a \<Rightarrow> ('s, 'a) Transpose \<Rightarrow> ('s, 'a) Transpose" where
  "setBeta beta t = t\<lparr>beta' := beta\<rparr>"

definition getInputPtr :: "('s, 'a) Transpose \<Rightarrow> nat" where
  "getInputPtr t = A' t"

definition getOutputPtr :: "('s, 'a) Transpose \<Rightarrow> nat" where
  "getOutputPtr t = B' t"

definition setInputPtr :: "nat \<Rightarrow> ('s, 'a) Transpose \<Rightarrow> ('s, 'a) Transpose" where
  "setInputPtr A t = t\<lparr>A' := A\<rparr>"

definition setOutputPtr :: "nat \<Rightarrow> ('s, 'a) Transpose \<Rightarrow> ('s, 'a) Transpose" where
  "setOutputPtr B t = t\<lparr>B' := B\<rparr>"

section \<open>The transposition as the specification describes it\<close>

text \<open>
  The header declares \<^verbatim>\<open>computeLeadingDimensions\<close>, \<^verbatim>\<open>createPlan\<close>, \<^verbatim>\<open>execute\<close> and the
  other member functions of \<^verbatim>\<open>Transpose\<close> without their bodies.  The definitions of this
  section follow the specification instead.  Sizes, indices and addresses are natural numbers
  here, and a buffer is a function from element addresses (relative to the buffer's start) to
  elements; the buffers A and B are two such functions, so they do not overlap.
\<close>

text \<open>
  Modelled from the spec: the walker that descends a ComputeTree is not part of the header.
  The spec (4.4) gives its loop over one node as \<^verbatim>\<open>i = start; i < end; i += inc\<close>.
  \<open>walker_iterations fuel i e step\<close> counts the iterations of that loop from the current
  \<open>i\<close>, on \<^verbatim>\<open>size_t\<close> with its wrap-around; the loop need not end (\<open>step\<close> may be 0), so the
  count is \<open>None\<close> when \<open>fuel\<close> iterations were not enough.
\<close>

fun walker_iterations :: "nat \<Rightarrow> 'w::len word \<Rightarrow> 'w word \<Rightarrow> 'w word \<Rightarrow> nat option" where
  "walker_iterations 0 i e step = (if i < e then None else Some 0)"
| "walker_iterations (Suc fuel) i e step =
     (if i < e then map_option Suc (walker_iterations fuel (i + step) e step) else Some 0)"

text \<open>
  Modelled from the spec: the body of \<^verbatim>\<open>Transpose::computeLeadingDimensions\<close> is not in the
  header.  Spec 3 and 4.2: the leading dimensions of an operand are the prefix products of its
  outer sizes, \<open>lda[k] = O_A[0] * ... * O_A[k-1]\<close> with \<open>lda[0] = 1\<close>.  The function gives
  them for one operand.
\<close>

definition computeLeadingDimensions :: "nat list \<Rightarrow> nat list" where
  "computeLeadingDimensions outerSize =
     map (\<lambda>k. prod_list (take k outerSize)) [0..<length outerSize]"

text \<open>
  Modelled from the spec: the address computation is part of the missing executor.  Spec 3:
  axis 0 is the unit-stride axis and one step along axis \<open>k\<close> is \<open>ld[k]\<close> elements, so the
  element with index tuple \<open>i\<close> is at the sum of \<open>i[k] * ld[k]\<close>.
\<close>

definition offset :: "nat list \<Rightarrow> nat list \<Rightarrow> nat" where
  "offset ld i = (\<Sum>k<length i. i ! k * ld ! k)"

text \<open>
  Modelled from the spec: the inverse \<open>\<pi>\<^sup>-\<^sup>1\<close> that spec 3 uses for the sizes of B; \<open>perm_inv perm m\<close>
  is the position of \<open>m\<close> in \<open>perm\<close> (the length of \<open>perm\<close> if there is none).
\<close>

definition perm_inv :: "nat list \<Rightarrow> nat \<Rightarrow> nat" where
  "perm_inv perm m = length (takeWhile (\<lambda>x. x \<noteq> m) perm)"

text \<open>
  Modelled from the spec: \<open>\<pi>(i)\<close>, the index tuple of B that the index tuple \<open>i\<close> of A is
  written to.  Spec, glossary: the permutation says where each axis of A lands in B, so axis
  \<open>k\<close> of A is axis \<open>\<pi>[k]\<close> of B, and entry \<open>m\<close> of \<open>\<pi>(i)\<close> is entry \<open>\<pi>\<^sup>-\<^sup>1[m]\<close> of \<open>i\<close>.
\<close>

definition permute_index :: "nat list \<Rightarrow> nat list \<Rightarrow> nat list" where
  "permute_index perm i = map (\<lambda>m. i ! perm_inv perm m) [0..<length perm]"

text \<open>Modelled from the spec: the logical sizes of B, spec 3: \<open>S_B[k] = S_A[\<pi>\<^sup>-\<^sup>1[k]]\<close>.\<close>

definition sizeB :: "nat list \<Rightarrow> nat list \<Rightarrow> nat list" where
  "sizeB sizeA perm = map (\<lambda>m. sizeA ! perm_inv perm m) [0..<length perm]"

text \<open>
  Modelled from the spec: the index tuples of a tensor with the given sizes (its logical
  domain for the logical sizes, its padded extent for the outer sizes): one index for each
  axis, each below the size of its axis.
\<close>

definition in_domain :: "nat list \<Rightarrow> nat list \<Rightarrow> bool" where
  "in_domain sizes i = list_all2 (\<lambda>x n. x < n) i sizes"

text \<open>
  Modelled from the spec: spec 3, \<open>\<pi>\<close> is a permutation when its values are a set equal to
  \<open>{0..d)\<close>; a loop order is a permutation of the axes of A in the same sense.
\<close>

definition is_permutation :: "nat \<Rightarrow> nat list \<Rightarrow> bool" where
  "is_permutation d p = (length p = d \<and> set p = {0..<d})"

text \<open>
  Modelled from the spec: the valid inputs, spec 3: the rank is at least 1, \<open>\<pi>\<close> is a
  permutation, and every outer size of A and of B is at least the logical size of its axis.
\<close>

definition valid_input :: "nat list \<Rightarrow> nat list \<Rightarrow> nat list \<Rightarrow> nat list \<Rightarrow> bool" where
  "valid_input sizeA perm outerSizeA outerSizeB =
     (1 \<le> length sizeA \<and> is_permutation (length sizeA) perm
      \<and> list_all2 (\<lambda>s n. s \<le> n) sizeA outerSizeA
      \<and> list_all2 (\<lambda>s n. s \<le> n) (sizeB sizeA perm) outerSizeB)"

text \<open>
  The index tuples that a loop nest with the given extents runs through, in the order of the
  run (the last loop is the innermost one).
\<close>

definition index_tuples :: "nat list \<Rightarrow> nat list list" where
  "index_tuples extents = product_lists (map (\<lambda>n. [0..<n]) extents)"

subsection \<open>The descriptor and its normalisation\<close>

text \<open>
  Modelled from the spec: the descriptor of a transposition, spec 3: the logical sizes of A,
  the permutation, and the outer sizes of A and of B.  These are the members \<^verbatim>\<open>sizeA_\<close>,
  \<^verbatim>\<open>perm_\<close>, \<^verbatim>\<open>outerSizeA_\<close> and \<^verbatim>\<open>outerSizeB_\<close> of the class, as natural numbers; the
  leading dimensions \<^verbatim>\<open>lda_\<close> and \<^verbatim>\<open>ldb_\<close> are computed from the outer sizes where they are
  used.
\<close>

record descriptor =
  d_sizeA :: "nat list"
  d_perm :: "nat list"
  d_outerSizeA :: "nat list"
  d_outerSizeB :: "nat list"

text \<open>Modelled from the spec: the valid inputs of spec 3, for a descriptor.\<close>

definition valid_descriptor :: "descriptor \<Rightarrow> bool" where
  "valid_descriptor D = valid_input (d_sizeA D) (d_perm D) (d_outerSizeA D) (d_outerSizeB D)"

text \<open>
  Modelled from the spec: the body of \<^verbatim>\<open>Transpose::fuseIndices\<close> is not in the header; the
  constructor calls it before \<^verbatim>\<open>computeLeadingDimensions\<close>.  Spec 3 and 4.2: an adjacent pair
  \<open>(k, k+1)\<close> of axes of A is fused when \<open>\<pi>[k] + 1 = \<pi>[k+1]\<close> and the pair carries no padding
  on either side, that is, in A and in B, where the pair is the pair of axes
  \<open>(\<pi>[k], \<pi>[k] + 1)\<close>.  Fusing updates the sizes, the outer sizes, the permutation and the
  rank: \<open>merge_at k\<close> replaces the entries \<open>k\<close> and \<open>k + 1\<close> of a list of sizes by their
  product, and the values of the permutation above \<open>\<pi>[k]\<close> go down by one.  The pair with
  the highest index is fused first, and fusing is repeated until no pair is left.  The lists
  of a descriptor that is not valid may be read out of range; nothing is stated about the
  result then.
\<close>

definition merge_at :: "nat \<Rightarrow> nat list \<Rightarrow> nat list" where
  "merge_at k xs = take k xs @ [xs ! k * xs ! Suc k] @ drop (k + 2) xs"

definition fusible :: "descriptor \<Rightarrow> nat \<Rightarrow> bool" where
  "fusible D k =
     (Suc k < length (d_sizeA D)
      \<and> d_perm D ! Suc k = Suc (d_perm D ! k)
      \<and> d_outerSizeA D ! k = d_sizeA D ! k
      \<and> d_outerSizeA D ! Suc k = d_sizeA D ! Suc k
      \<and> d_outerSizeB D ! (d_perm D ! k) = d_sizeA D ! k
      \<and> d_outerSizeB D ! Suc (d_perm D ! k) = d_sizeA D ! Suc k)"

definition fuse_pair :: "descriptor \<Rightarrow> nat \<Rightarrow> descriptor" where
  "fuse_pair D k =
     (let m = d_perm D ! k in
      \<lparr>d_sizeA = merge_at k (d_sizeA D),
       d_perm = map (\<lambda>v. if m < v then v - 1 else v)
                  (take (Suc k) (d_perm D) @ drop (k + 2) (d_perm D)),
       d_outerSizeA = merge_at k (d_outerSizeA D),
       d_outerSizeB = merge_at m (d_outerSizeB D)\<rparr>)"

function fuseIndices :: "descriptor \<Rightarrow> descriptor" where
  "fuseIndices D =
     (case find (fusible D) (rev [0..<length (d_sizeA D)]) of
        None \<Rightarrow> D
      | Some k \<Rightarrow> fuseIndices (fuse_pair D k))"
  by pat_completeness auto
termination
proof (relation "measure (\<lambda>D. length (d_sizeA D))")
  show "wf (measure (\<lambda>D. length (d_sizeA D)))" by simp
next
  fix D k
  assume "find (fusible D) (rev [0..<length (d_sizeA D)]) = Some k"
  then have "fusible D k" by (auto simp add: find_Some_iff)
  then have "Suc k < length (d_sizeA D)" by (simp add: fusible_def)
  then show "(fuse_pair D k, D) \<in> measure (\<lambda>D. length (d_sizeA D))"
    by (simp add: fuse_pair_def Let_def merge_at_def)
qed

declare fuseIndices.simps [simp del]

subsection \<open>Element operations and kernels\<close>

text \<open>
  Modelled from the spec: what the executor does to the buffers is a sequence of element
  operations.  An element operation \<open>(a, b)\<close> reads the element of A at the address \<open>a\<close> and
  updates the element of B at the address \<open>b\<close>.  Spec 3 and 4.3: the update is
  \<open>B \<leftarrow> \<alpha> * A\<close> in the variant for \<open>\<beta> = 0\<close>, which does not load B, and
  \<open>B \<leftarrow> \<alpha> * A + \<beta> * B\<close> in the other variant.  The element type has a zero, an addition
  and a multiplication, and no law is assumed of them: they may round.  The streaming-store
  hint of spec 4.1 says how a store reaches memory, not which element is stored or with what
  value; it is not modelled.
\<close>

type_synonym op = "nat \<times> nat"

definition scale_accumulate :: "'a::{zero,plus,times} \<Rightarrow> 'a \<Rightarrow> 'a \<Rightarrow> 'a \<Rightarrow> 'a" where
  "scale_accumulate alpha beta a b = (if beta = 0 then alpha * a else alpha * a + beta * b)"

definition apply_op ::
  "'a::{zero,plus,times} \<Rightarrow> 'a \<Rightarrow> (nat \<Rightarrow> 'a) \<Rightarrow> op \<Rightarrow> (nat \<Rightarrow> 'a) \<Rightarrow> (nat \<Rightarrow> 'a)" where
  "apply_op alpha beta A p B = B(snd p := scale_accumulate alpha beta (A (fst p)) (B (snd p)))"

definition apply_ops ::
  "'a::{zero,plus,times} \<Rightarrow> 'a \<Rightarrow> (nat \<Rightarrow> 'a) \<Rightarrow> op list \<Rightarrow> (nat \<Rightarrow> 'a) \<Rightarrow> (nat \<Rightarrow> 'a)" where
  "apply_ops alpha beta A ops B = fold (apply_op alpha beta A) ops B"

text \<open>
  Modelled from the spec: scalar loops.  A loop is given by its extent and its strides in A
  and in B; \<open>nest_ops loops a b\<close> are the element operations of the nest of the given loops,
  the first one outermost, from the pointers \<open>a\<close> and \<open>b\<close>.  This is the scalar cleanup path of
  spec 4.4 and the loop structure of every kernel.
\<close>

fun nest_ops :: "(nat \<times> nat \<times> nat) list \<Rightarrow> nat \<Rightarrow> nat \<Rightarrow> op list" where
  "nest_ops [] a b = [(a, b)]"
| "nest_ops ((n, sa, sb) # loops) a b =
     concat (map (\<lambda>i. nest_ops loops (a + i * sa) (b + i * sb)) [0..<n])"

text \<open>
  Modelled from the spec: the micro-kernel is not in the header.  Spec 4.3: it transposes a
  tile of \<open>M\<close> by \<open>M\<close> elements, and it is built from a kernel for a register tile of \<open>m\<close> by
  \<open>m\<close> elements that is applied \<open>(M/m)\<^sup>2\<close> times with pointer arithmetic.  The two axes of the
  tile have the strides \<open>sa1\<close>, \<open>sb1\<close> and \<open>sa2\<close>, \<open>sb2\<close> in A and B.  The register tile loads,
  shuffles and stores \<open>m * m\<close> elements; as element operations these are the operations of
  two loops of extent \<open>m\<close>.
\<close>

definition register_tile ::
  "nat \<Rightarrow> nat \<Rightarrow> nat \<Rightarrow> nat \<Rightarrow> nat \<Rightarrow> nat \<Rightarrow> nat \<Rightarrow> op list" where
  "register_tile m sa1 sb1 sa2 sb2 a b = nest_ops [(m, sa1, sb1), (m, sa2, sb2)] a b"

definition micro_kernel ::
  "nat \<Rightarrow> nat \<Rightarrow> nat \<Rightarrow> nat \<Rightarrow> nat \<Rightarrow> nat \<Rightarrow> nat \<Rightarrow> nat \<Rightarrow> op list" where
  "micro_kernel M m sa1 sb1 sa2 sb2 a b =
     concat (map (\<lambda>X. concat (map (\<lambda>Y.
         register_tile m sa1 sb1 sa2 sb2
           (a + X * (m * sa1) + Y * (m * sa2)) (b + X * (m * sb1) + Y * (m * sb2)))
       [0..<M div m])) [0..<M div m])"

text \<open>
  Modelled from the spec: the terminal stage of the walker, spec 4.4.  It receives the blocks
  that the tiled loops of the tree have stepped to: for each such loop the number of indices
  that the current step covers, with the strides of the axis.  A leaf with two blocks of the
  full tile edge \<open>M\<close> is a full-tile leaf and runs the micro-kernel.  Any other leaf is a
  remainder leaf: a scalar cleanup path runs over what is left of the axes, which is the
  extent of the blocks.
\<close>

definition macro_kernel ::
  "nat \<Rightarrow> nat \<Rightarrow> (nat \<times> nat \<times> nat) list \<Rightarrow> nat \<Rightarrow> nat \<Rightarrow> op list" where
  "macro_kernel M m blocks a b =
     (case blocks of
        [(r1, sa1, sb1), (r2, sa2, sb2)] \<Rightarrow>
          if r1 = M \<and> r2 = M then micro_kernel M m sa1 sb1 sa2 sb2 a b
          else nest_ops blocks a b
      | _ \<Rightarrow> nest_ops blocks a b)"

text \<open>
  Modelled from the spec: the kernel of the specialisation for \<open>\<pi>[0] = 0\<close>, spec 4.3.  It
  is a copy with scale and accumulate, without shuffles, over the blocks it is given.
\<close>

definition constStride1_kernel :: "(nat \<times> nat \<times> nat) list \<Rightarrow> nat \<Rightarrow> nat \<Rightarrow> op list" where
  "constStride1_kernel blocks a b = nest_ops blocks a b"

subsection \<open>The walker\<close>

text \<open>
  Modelled from the spec: the indices that the loop \<^verbatim>\<open>i = start; i < end; i += inc\<close> of spec
  4.4 runs through, on natural numbers, as all sizes of this section are (\<open>walker_iterations\<close>
  above counts the iterations of the same loop on \<^verbatim>\<open>size_t\<close>).  With the increment 0 the loop
  of the program does not end; the list is empty then, and the walker below gives no result
  in that case.
\<close>

function loop_from :: "nat \<Rightarrow> nat \<Rightarrow> nat \<Rightarrow> nat list" where
  "loop_from i e step = (if i < e \<and> 0 < step then i # loop_from (i + step) e step else [])"
  by pat_completeness auto
termination
  by (relation "measure (\<lambda>(i, e, step). e - i)") auto

declare loop_from.simps [simp del]

text \<open>
  Modelled from the spec: the walker is not in the header.  Spec 4.4: it walks a ComputeTree
  from the root.  At a node it iterates \<^verbatim>\<open>i = start; i < end; i += inc\<close> and advances the
  pointers into A and B by \<open>i * lda\<close> and \<open>i * ldb\<close>; after the last node (\<^verbatim>\<open>next\<close> is null) it
  hands the current pointers to the kernel.  A node whose increment is not 1 is a tiled loop:
  its step at \<open>i\<close> covers the indices from \<open>i\<close> up to \<open>i + inc\<close> or to \<open>end\<close>, whichever is
  less, and that block is passed on to the terminal stage.  The result is the sequence of the
  element operations of the walk, or \<open>None\<close> when a loop does not end (its increment is 0 and
  its range is not empty).
\<close>

fun walker :: "((nat \<times> nat \<times> nat) list \<Rightarrow> nat \<Rightarrow> nat \<Rightarrow> op list) \<Rightarrow> nat ComputeNode
    \<Rightarrow> (nat \<times> nat \<times> nat) list \<Rightarrow> nat \<Rightarrow> nat \<Rightarrow> op list option" where
  "walker kern (ComputeNode s e step sa sb nxt) blocks a b =
     (if step = 0 \<and> s < e then None
      else map_option concat (those (map
        (\<lambda>i. let blocks' = (if step = 1 then blocks else blocks @ [(min step (e - i), sa, sb)])
             in case nxt of
                  None \<Rightarrow> Some (kern blocks' (a + i * sa) (b + i * sb))
                | Some n \<Rightarrow> walker kern n blocks' (a + i * sa) (b + i * sb))
        (loop_from s e step))))"

subsection \<open>Plans\<close>

text \<open>
  Modelled from the spec: the partition of spec 4.5.  An axis of size \<open>n\<close> that is split over
  \<open>p\<close> workers gives contiguous chunks of \<open>\<lceil>n / p\<rceil>\<close> indices, the last ones possibly shorter;
  \<open>chunk n p q\<close> is the range \<open>[start, end)\<close> of the chunk of number \<open>q\<close>.
\<close>

definition chunk :: "nat \<Rightarrow> nat \<Rightarrow> nat \<Rightarrow> nat \<times> nat" where
  "chunk n p q = (let c = (n + p - 1) div p in (min n (q * c), min n ((q + 1) * c)))"

text \<open>
  Modelled from the spec: spec 4.5, worker \<open>t\<close> computes a mixed-radix decomposition of \<open>t\<close>
  over the parallelism vector; the digit of a loop level is the number of the worker's chunk
  at that level.
\<close>

fun task_digits :: "nat list \<Rightarrow> nat \<Rightarrow> nat list" where
  "task_digits [] t = []"
| "task_digits (p # ps) t = (t div prod_list ps) # task_digits ps (t mod prod_list ps)"

text \<open>
  Modelled from the spec: the body of \<^verbatim>\<open>Transpose::getIncrement\<close> is not in the header.  Spec
  4.3: a tile has \<open>M\<close> elements along axis 0 of A and \<open>M\<close> elements along axis 0 of B, which
  is the axis \<open>k\<close> of A with \<open>\<pi>[k] = 0\<close>; the loops over these two axes step by \<open>M\<close> and the
  other loops by 1.  In the specialisation for \<open>\<pi>[0] = 0\<close> the unit-stride axis is handed to
  the kernel as a whole, so its loop steps by the size of the axis (by 1 when the size is 0),
  and the other loops step by \<^verbatim>\<open>blocking_constStride1_\<close>, which the constructor sets to 1.
\<close>

definition getIncrement :: "nat \<Rightarrow> descriptor \<Rightarrow> nat \<Rightarrow> nat" where
  "getIncrement M D loopIdx =
     (if d_perm D ! 0 = 0 then (if loopIdx = 0 then max 1 (d_sizeA D ! 0) else 1)
      else if loopIdx = 0 \<or> d_perm D ! loopIdx = 0 then M else 1)"

text \<open>
  Modelled from the spec: the ComputeTree of a worker, spec 3 and 4.5.  It is a linked list
  with one node for each loop level, from the outermost one.  A level is given by its axis
  \<open>k\<close> of A, the number \<open>p\<close> of workers it is split over and the digit \<open>q\<close> of the worker; its
  node carries the range of the worker's chunk of the axis, the increment of the axis, and
  the strides \<open>lda[k]\<close> and \<open>ldb[\<pi>[k]]\<close>.  The trees of a plan differ in the ranges only.  With
  no level at all the root is a node with an empty range.
\<close>

definition createNode ::
  "nat \<Rightarrow> descriptor \<Rightarrow> nat \<times> nat \<times> nat \<Rightarrow> nat ComputeNode option \<Rightarrow> nat ComputeNode" where
  "createNode M D l nxt =
     (case l of (k, p, q) \<Rightarrow>
        (let (s, e) = chunk (d_sizeA D ! k) p q
         in ComputeNode s e (getIncrement M D k)
              (computeLeadingDimensions (d_outerSizeA D) ! k)
              (computeLeadingDimensions (d_outerSizeB D) ! (d_perm D ! k)) nxt))"

fun createChain ::
  "nat \<Rightarrow> descriptor \<Rightarrow> (nat \<times> nat \<times> nat) list \<Rightarrow> nat ComputeNode option" where
  "createChain M D [] = None"
| "createChain M D (l # ls) = Some (createNode M D l (createChain M D ls))"

definition createTree ::
  "nat \<Rightarrow> descriptor \<Rightarrow> nat list \<Rightarrow> nat list \<Rightarrow> nat \<Rightarrow> nat ComputeNode" where
  "createTree M D loopOrder numThreadsAtLoop t =
     (case createChain M D
             (zip loopOrder (zip numThreadsAtLoop (task_digits numThreadsAtLoop t))) of
        None \<Rightarrow> ComputeNode 0 0 0 0 0 None
      | Some root \<Rightarrow> root)"

text \<open>
  Modelled from the spec: a plan, spec 3: a loop order, a parallelism vector, and one
  ComputeTree for each task; the number of tasks is the product of the parallelism vector, as
  in the constructor of \<^verbatim>\<open>Plan\<close>.
\<close>

definition createPlan :: "nat \<Rightarrow> descriptor \<Rightarrow> nat list \<Rightarrow> nat list \<Rightarrow> nat Plan" where
  "createPlan M D loopOrder numThreadsAtLoop =
     \<lparr>numTasks' = int (prod_list numThreadsAtLoop),
      loopOrder' = map int loopOrder,
      numThreadsAtLoop' = map int numThreadsAtLoop,
      rootNodes' = Some (map (createTree M D loopOrder numThreadsAtLoop)
                           [0..<prod_list numThreadsAtLoop])\<rparr>"

text \<open>
  Modelled from the spec: the bodies of \<^verbatim>\<open>getLoopOrders\<close>, \<^verbatim>\<open>getParallelismStrategies\<close> and
  \<^verbatim>\<open>createPlans\<close> are not in the header.  Spec 4.6 to 4.8: the candidate loop orders are
  permutations of the axes, the candidate parallelism vectors distribute the factors of the
  thread count \<open>T\<close> over the loop levels, so their product is \<open>T\<close>, and the candidate plans are
  the pairs of a candidate loop order and a candidate vector.  The heuristics that rank and
  prune the candidates are not modelled: here every permutation and every vector of positive
  numbers with the product \<open>T\<close> is a candidate, so the candidates of the program, and the
  plan that it selects, are among the plans of \<open>createPlans\<close>.
\<close>

definition getLoopOrders :: "nat \<Rightarrow> nat list list" where
  "getLoopOrders d = filter distinct (product_lists (replicate d [0..<d]))"

definition getParallelismStrategies :: "nat \<Rightarrow> nat \<Rightarrow> nat list list" where
  "getParallelismStrategies d T =
     filter (\<lambda>par. prod_list par = T) (product_lists (replicate d [1..<Suc T]))"

definition createPlans :: "nat \<Rightarrow> descriptor \<Rightarrow> nat \<Rightarrow> nat Plan list" where
  "createPlans M D T =
     concat (map (\<lambda>loopOrder. map (createPlan M D loopOrder)
                    (getParallelismStrategies (length (d_sizeA D)) T))
               (getLoopOrders (length (d_sizeA D))))"

subsection \<open>Execution\<close>

text \<open>
  Modelled from the spec: the workers run at the same time, spec 5: worker \<open>t\<close> runs the
  ComputeTree \<open>t\<close> to completion, without locks.  A run is an interleaving of the workers'
  sequences of element operations.  It is given by a schedule, the list of the workers in the
  order in which they take their next step; a worker that is named when it has nothing left
  is skipped, and what is left when the schedule ends is run worker by worker.  Every
  interleaving is the run of some schedule.
\<close>

fun interleave :: "nat list \<Rightarrow> op list list \<Rightarrow> op list" where
  "interleave [] Ws = concat Ws"
| "interleave (w # schedule) Ws =
     (if w < length Ws \<and> Ws ! w \<noteq> []
      then hd (Ws ! w) # interleave schedule (Ws[w := tl (Ws ! w)])
      else interleave schedule Ws)"

text \<open>
  Modelled from the spec: the body of \<^verbatim>\<open>Transpose::execute\<close> is not in the header.  Spec 4.3,
  4.4 and 5: every worker walks its tree of the plan, with the kernel of the specialisation
  for \<open>\<pi>[0] = 0\<close> or else with the tiled kernel, whose tile edges are \<^verbatim>\<open>blocking_\<close> and
  \<^verbatim>\<open>blocking_micro_\<close>; the walks start at the first elements of A and B.  \<open>D\<close> is the
  descriptor that the object holds, which is the result of \<^verbatim>\<open>fuseIndices\<close> in the
  constructor.  The result is the contents of B after the run, or \<open>None\<close> when the plan has no
  trees or a walk does not end.
\<close>

definition execute :: "arch \<Rightarrow> floatType \<Rightarrow> descriptor \<Rightarrow> nat Plan \<Rightarrow> nat list
    \<Rightarrow> 'a::{zero,plus,times} \<Rightarrow> 'a \<Rightarrow> (nat \<Rightarrow> 'a) \<Rightarrow> (nat \<Rightarrow> 'a) \<Rightarrow> (nat \<Rightarrow> 'a) option" where
  "execute ar ft D plan schedule alpha beta A B =
     (let kern = (if d_perm D ! 0 = 0 then constStride1_kernel
                  else macro_kernel (blocking' ar (sizeof ft)) (blocking_micro' ar (sizeof ft)))
      in case rootNodes' plan of
           None \<Rightarrow> None
         | Some roots \<Rightarrow>
             (case those (map (\<lambda>root. walker kern root [] 0 0) roots) of
                None \<Rightarrow> None
              | Some Ws \<Rightarrow> Some (apply_ops alpha beta A (interleave schedule Ws) B)))"

section \<open>Notions for the proofs\<close>

text \<open>
  The element operations of the contract of spec 3, \<open>B[\<pi>(i)] \<leftarrow> \<alpha> * A[i] + \<beta> * B[\<pi>(i)]\<close>: one
  for each index tuple \<open>i\<close> of the logical domain of A, from the element of A at \<open>i\<close> to the
  element of B at \<open>\<pi>(i)\<close>.
\<close>

definition contract_ops :: "descriptor \<Rightarrow> op list" where
  "contract_ops D =
     map (\<lambda>i. (offset (computeLeadingDimensions (d_outerSizeA D)) i,
               offset (computeLeadingDimensions (d_outerSizeB D)) (permute_index (d_perm D) i)))
       (index_tuples (d_sizeA D))"

text \<open>
  Multisets of element operations.  \<open>shift d p\<close> moves both addresses of \<open>p\<close> by those of
  \<open>d\<close>; \<open>combine X Y\<close> has the sum of every operation of \<open>X\<close> with every operation of \<open>Y\<close>;
  \<open>span s e sa sb\<close> are the operations of one loop over \<open>[s, e)\<close> with the strides \<open>sa\<close> and
  \<open>sb\<close>, and \<open>blocks_span\<close> those of a nest of loops that start at 0.
\<close>

definition shift :: "op \<Rightarrow> op \<Rightarrow> op" where
  "shift d p = (fst p + fst d, snd p + snd d)"

definition combine :: "op multiset \<Rightarrow> op multiset \<Rightarrow> op multiset" where
  "combine X Y = (\<Sum>x\<in>#X. image_mset (shift x) Y)"

definition span :: "nat \<Rightarrow> nat \<Rightarrow> nat \<Rightarrow> nat \<Rightarrow> op multiset" where
  "span s e sa sb = mset (map (\<lambda>i. (i * sa, i * sb)) [s..<e])"

definition blocks_span :: "(nat \<times> nat \<times> nat) list \<Rightarrow> op multiset" where
  "blocks_span blocks = foldr (\<lambda>(n, sa, sb). combine (span 0 n sa sb)) blocks {#(0, 0)#}"

text \<open>The operations of the ranges of a chain of nodes, and the chains whose loops all end.\<close>

fun chain_span :: "nat ComputeNode \<Rightarrow> op multiset" where
  "chain_span (ComputeNode s e step sa sb nxt) =
     combine (span s e sa sb) (case nxt of None \<Rightarrow> {#(0, 0)#} | Some n \<Rightarrow> chain_span n)"

fun steps_positive :: "nat ComputeNode \<Rightarrow> bool" where
  "steps_positive (ComputeNode s e step sa sb nxt) =
     (0 < step \<and> (case nxt of None \<Rightarrow> True | Some n \<Rightarrow> steps_positive n))"

definition opt_span :: "nat ComputeNode option \<Rightarrow> op multiset" where
  "opt_span nxt = (case nxt of None \<Rightarrow> {#(0, 0)#} | Some n \<Rightarrow> chain_span n)"

definition opt_positive :: "nat ComputeNode option \<Rightarrow> bool" where
  "opt_positive nxt = (case nxt of None \<Rightarrow> True | Some n \<Rightarrow> steps_positive n)"

text \<open>
  The loop over the whole of axis \<open>k\<close> of A, the nest of these loops in the order of the axes,
  and the part of a loop that is the chunk of one worker.
\<close>

definition axis_loop :: "descriptor \<Rightarrow> nat \<Rightarrow> nat \<times> nat \<times> nat" where
  "axis_loop D k = (d_sizeA D ! k, computeLeadingDimensions (d_outerSizeA D) ! k,
                    computeLeadingDimensions (d_outerSizeB D) ! (d_perm D ! k))"

definition axis_loops :: "descriptor \<Rightarrow> (nat \<times> nat \<times> nat) list" where
  "axis_loops D = map (axis_loop D) [0..<length (d_sizeA D)]"

definition level_span :: "descriptor \<Rightarrow> nat \<times> nat \<times> nat \<Rightarrow> op multiset" where
  "level_span D l = (case l of (k, p, q) \<Rightarrow>
     span (fst (chunk (d_sizeA D ! k) p q)) (snd (chunk (d_sizeA D ! k) p q))
       (computeLeadingDimensions (d_outerSizeA D) ! k)
       (computeLeadingDimensions (d_outerSizeB D) ! (d_perm D ! k)))"

text \<open>The pair of addresses that a nest of loops reaches at the loop indices \<open>i\<close>.\<close>

definition loops_address :: "(nat \<times> nat \<times> nat) list \<Rightarrow> nat list \<Rightarrow> op" where
  "loops_address T i = (offset (map (fst \<circ> snd) T) i, offset (map (snd \<circ> snd) T) i)"

text \<open>
  What fusing keeps of a valid descriptor: the permutation is one, and the lists have the
  length of the rank.
\<close>

definition well_formed :: "descriptor \<Rightarrow> bool" where
  "well_formed D =
     (is_permutation (length (d_sizeA D)) (d_perm D)
      \<and> length (d_outerSizeA D) = length (d_sizeA D)
      \<and> length (d_outerSizeB D) = length (d_sizeA D))"

section \<open>Properties of the header's code\<close>

subsection \<open>The default node\<close>

lemma size_t_of_minus_one: "unat (- 1 :: 'w::len word) = 2 ^ LENGTH('w) - 1"
  by (simp add: unsigned_minus_1_eq_mask mask_eq_exp_minus_1)

text \<open>
  C10.  A default-constructed node has a null \<open>next'\<close>, and each of \<open>start\<close>, \<open>end'\<close>, \<open>inc\<close>,
  \<open>lda\<close>, \<open>ldb\<close> is \<open>2 ^ w - 1\<close>, the value of \<^verbatim>\<open>-1\<close> converted to the \<open>w\<close>-bit \<^verbatim>\<open>size_t\<close>.  So
  \<open>start < end'\<close> is false, and the walker's loop over the node makes no iteration, whatever
  the fuel.
\<close>

theorem ComputeNode_default_fields:
  fixes d :: "'w::len word ComputeNode"
  defines "d \<equiv> ComputeNode_default"
  shows "next' d = None
    \<and> unat (start d) = 2 ^ LENGTH('w) - 1
    \<and> unat (end' d) = 2 ^ LENGTH('w) - 1
    \<and> unat (inc d) = 2 ^ LENGTH('w) - 1
    \<and> unat (lda d) = 2 ^ LENGTH('w) - 1
    \<and> unat (ldb d) = 2 ^ LENGTH('w) - 1
    \<and> \<not> start d < end' d
    \<and> (\<forall>fuel. walker_iterations fuel (start d) (end' d) (inc d) = Some 0)"
proof -
  have fields: "start d = - 1" "end' d = - 1" "inc d = - 1" "lda d = - 1" "ldb d = - 1"
    "next' d = None"
    by (simp_all add: d_def ComputeNode_default_def)
  have no_iteration: "walker_iterations fuel (start d) (end' d) (inc d) = Some 0" for fuel
    by (cases fuel) (simp_all add: fields)
  show ?thesis
    using no_iteration by (simp add: fields size_t_of_minus_one)
qed

subsection \<open>The plan's task count\<close>

lemma numTasks_loop_prod:
  "list_all in_int_range (running_products acc nts)
   \<Longrightarrow> numTasks_loop acc nts = Inr (acc * prod_list nts)"
  by (induction nts arbitrary: acc) (simp_all add: mult.assoc)

lemma numTasks_loop_overflow:
  "\<not> list_all in_int_range (running_products acc nts)
   \<Longrightarrow> numTasks_loop acc nts = Inl SignedOverflow"
  by (induction nts arbitrary: acc) (simp_all add: mult.assoc)

text \<open>
  C6, as the code has it.  For every loop order and every parallelism vector
  \<open>numThreadsAtLoop\<close> whose running products all are \<^verbatim>\<open>int\<close> values and whose product is not
  negative, the constructor returns a plan: its \<open>numTasks'\<close> is the product of the entries (1
  for the empty vector), its \<open>rootNodes'\<close> is an array of exactly that many default-constructed
  nodes, the two vectors are stored as given, and \<open>getNumTasks\<close> returns the product.
\<close>

theorem Plan_ctor_numTasks:
  assumes "list_all in_int_range (running_products 1 numThreadsAtLoop)"
    and "0 \<le> prod_list numThreadsAtLoop"
  shows "\<exists>p :: 'w::len word Plan.
      Plan_ctor loopOrder numThreadsAtLoop = Inr p
    \<and> numTasks' p = prod_list numThreadsAtLoop
    \<and> rootNodes' p = Some (replicate (nat (prod_list numThreadsAtLoop)) ComputeNode_default)
    \<and> length (the (rootNodes' p)) = nat (numTasks' p)
    \<and> loopOrder' p = loopOrder \<and> numThreadsAtLoop' p = numThreadsAtLoop
    \<and> getNumTasks p = prod_list numThreadsAtLoop"
proof -
  have "numTasks_loop 1 numThreadsAtLoop = Inr (prod_list numThreadsAtLoop)"
    using numTasks_loop_prod [OF assms(1)] by simp
  then show ?thesis
    using assms(2) by (simp add: Plan_ctor_def getNumTasks_def)
qed

theorem Plan_ctor_numTasks_witness:
  "list_all in_int_range (running_products 1 [2, 3]) \<and> 0 \<le> prod_list [2, 3 :: int]
   \<and> (\<exists>p :: 64 word Plan.
      Plan_ctor [1, 0] [2, 3] = Inr p
    \<and> numTasks' p = 6
    \<and> length (the (rootNodes' p)) = 6
    \<and> getNumTasks p = 6)"
proof -
  have h1: "list_all in_int_range (running_products 1 [2, 3])"
    by (simp add: in_int_range_def INT_MIN_def INT_MAX_def)
  have h2: "0 \<le> prod_list [2, 3 :: int]"
    by simp
  show ?thesis
    using h1 h2 Plan_ctor_numTasks [OF h1 h2, of "[1, 0]", where 'w = 64] by auto
qed

text \<open>
  C6 as it is stated, for every parallelism vector, fails.  For the vector \<open>[- 1]\<close> the product
  is \<open>- 1\<close> and the array allocation throws, so no plan with \<open>- 1\<close> root nodes exists; for
  \<open>[65536, 65536]\<close> the product \<open>2 ^ 32\<close> is not a value of \<^verbatim>\<open>int\<close>.
\<close>

theorem Plan_ctor_numTasks_counterexample:
  "\<not> (\<exists>p :: 64 word Plan. Plan_ctor [0] [- 1] = Inr p)
   \<and> (Plan_ctor [0] [- 1] :: error + 64 word Plan) = Inl BadArrayNewLength
   \<and> prod_list [- 1 :: int] = - 1
   \<and> \<not> (\<exists>p :: 64 word Plan. Plan_ctor [0, 1] [65536, 65536] = Inr p)
   \<and> (Plan_ctor [0, 1] [65536, 65536] :: error + 64 word Plan) = Inl SignedOverflow
   \<and> \<not> in_int_range (prod_list [65536, 65536])"
  by (simp add: Plan_ctor_def in_int_range_def INT_MIN_def INT_MAX_def)

subsection \<open>The blocking constants\<close>

text \<open>
  C7.  For every element type, of size \<open>s\<close> bytes, the micro-tile edge \<open>blocking_micro'\<close> is
  the lane count (register width in bits) / (8 * \<open>s\<close>), and the macro-tile edge \<open>blocking'\<close> is
  four times the lane count; with 256-bit registers that is 8 and 32 for \<^verbatim>\<open>float\<close>, 4 and 16
  for \<^verbatim>\<open>double\<close>.
\<close>

theorem blocking_is_lane_count:
  "blocking_micro' a s = REGISTER_BITS a div (8 * s)
   \<and> blocking' a s = 4 * (REGISTER_BITS a div (8 * s))
   \<and> REGISTER_BITS AVX = 256
   \<and> blocking_micro' AVX (sizeof Float) = 8 \<and> blocking' AVX (sizeof Float) = 32
   \<and> blocking_micro' AVX (sizeof Double) = 4 \<and> blocking' AVX (sizeof Double) = 16"
  by (simp add: blocking_micro'_def blocking'_def div_mult2_eq)

subsection \<open>The setters\<close>

text \<open>
  C8.  Each of \<open>setAlpha\<close>, \<open>setBeta\<close>, \<open>setInputPtr\<close>, \<open>setOutputPtr\<close> and \<open>setNumThreads\<close>
  stores its argument in its own member and changes no other member (putting the old value
  back gives the object it was applied to); in particular the master plan, \<open>dim'\<close>, the sizes,
  the permutation and the leading dimensions of the object are the same after the call, so
  the plan and the shape built once are there for the next execution.
\<close>

theorem setters_change_own_field_only:
  fixes t :: "('s, 'a) Transpose"
  shows "(setAlpha alpha t)\<lparr>alpha' := alpha' t\<rparr> = t \<and> alpha' (setAlpha alpha t) = alpha
   \<and> (setBeta beta t)\<lparr>beta' := beta' t\<rparr> = t \<and> beta' (setBeta beta t) = beta
   \<and> (setInputPtr A t)\<lparr>A' := A' t\<rparr> = t \<and> A' (setInputPtr A t) = A
   \<and> (setOutputPtr B t)\<lparr>B' := B' t\<rparr> = t \<and> B' (setOutputPtr B t) = B
   \<and> (setNumThreads n t)\<lparr>numThreads' := numThreads' t\<rparr> = t
   \<and> numThreads' (setNumThreads n t) = n
   \<and> map masterPlan' [setAlpha alpha t, setBeta beta t, setInputPtr A t, setOutputPtr B t,
        setNumThreads n t] = replicate 5 (masterPlan' t)
   \<and> map dim' [setAlpha alpha t, setBeta beta t, setInputPtr A t, setOutputPtr B t,
        setNumThreads n t] = replicate 5 (dim' t)
   \<and> map sizeA' [setAlpha alpha t, setBeta beta t, setInputPtr A t, setOutputPtr B t,
        setNumThreads n t] = replicate 5 (sizeA' t)
   \<and> map perm' [setAlpha alpha t, setBeta beta t, setInputPtr A t, setOutputPtr B t,
        setNumThreads n t] = replicate 5 (perm' t)
   \<and> map outerSizeA' [setAlpha alpha t, setBeta beta t, setInputPtr A t, setOutputPtr B t,
        setNumThreads n t] = replicate 5 (outerSizeA' t)
   \<and> map outerSizeB' [setAlpha alpha t, setBeta beta t, setInputPtr A t, setOutputPtr B t,
        setNumThreads n t] = replicate 5 (outerSizeB' t)
   \<and> map lda' [setAlpha alpha t, setBeta beta t, setInputPtr A t, setOutputPtr B t,
        setNumThreads n t] = replicate 5 (lda' t)
   \<and> map ldb' [setAlpha alpha t, setBeta beta t, setInputPtr A t, setOutputPtr B t,
        setNumThreads n t] = replicate 5 (ldb' t)"
  by (simp add: setAlpha_def setBeta_def setInputPtr_def setOutputPtr_def setNumThreads_def
      numeral_eq_Suc)

subsection \<open>The copy constructor\<close>

text \<open>
  C9 asks that the copy of an object has every member equal to the original's, in particular
  \<open>blocking_constStride1'\<close>, which the primary constructor sets to 1.  The copy constructor
  copies every other member (putting the original's value of \<open>blocking_constStride1'\<close> into the
  copy gives the original), but it leaves that member without a value: the copy of an object
  that the primary constructor has initialised, here for \<open>dim = 2\<close>, differs from the object.
\<close>

theorem Transpose_copy_loses_blocking_constStride1:
  fixes t :: "('w::len word, 'a) Transpose"
  shows "blocking_constStride1' (Transpose_copy t) = None
   \<and> (Transpose_copy t)\<lparr>blocking_constStride1' := blocking_constStride1' t\<rparr> = t
   \<and> (\<exists>t0 :: ('w word, 'a) Transpose.
        Transpose_init 2 A alpha B beta selectionMethod numThreads = Inr t0
      \<and> blocking_constStride1' t0 = Some 1
      \<and> blocking_constStride1' (Transpose_copy t0) \<noteq> blocking_constStride1' t0
      \<and> Transpose_copy t0 \<noteq> t0)"
proof -
  have copy: "blocking_constStride1' (Transpose_copy u) = None" for u :: "('w word, 'a) Transpose"
    by (simp add: Transpose_copy_def)
  have rest: "(Transpose_copy t)\<lparr>blocking_constStride1' := blocking_constStride1' t\<rparr> = t"
    by (simp add: Transpose_copy_def)
  obtain t0 :: "('w word, 'a) Transpose"
    where t0: "Transpose_init 2 A alpha B beta selectionMethod numThreads = Inr t0"
      and one: "blocking_constStride1' t0 = Some 1"
    by (simp add: Transpose_init_def)
  have "blocking_constStride1' (Transpose_copy t0) \<noteq> blocking_constStride1' t0"
    by (simp add: copy one)
  moreover from this have "Transpose_copy t0 \<noteq> t0"
    by auto
  ultimately show ?thesis
    using copy rest t0 one by blast
qed

section \<open>Properties of the transposition\<close>

subsection \<open>Permutations\<close>

lemma is_permutation_distinct: "is_permutation d p \<Longrightarrow> distinct p"
  by (simp add: is_permutation_def card_distinct)

lemma is_permutation_nth_less:
  assumes "is_permutation d p" and "l < d"
  shows "p ! l < d"
proof -
  from assms(1) have eq: "set p = {0..<d}" and len: "length p = d"
    by (simp_all add: is_permutation_def)
  have "p ! l \<in> set p"
    using assms(2) len by simp
  then have "p ! l \<in> {0..<d}"
    unfolding eq .
  then show ?thesis
    by simp
qed

lemma perm_inv_nth:
  assumes "distinct p" and "l < length p"
  shows "perm_inv p (p ! l) = l"
proof -
  have "takeWhile (\<lambda>x. x \<noteq> p ! l) p = take l p"
  proof (rule takeWhile_eq_take_P_nth)
    fix i assume "i < l" "i < length p"
    with assms show "p ! i \<noteq> p ! l"
      by (simp add: nth_eq_iff_index_eq)
  qed simp
  with assms(2) show ?thesis
    by (simp add: perm_inv_def)
qed

lemma nth_perm_inv:
  assumes "is_permutation d p" and "m < d"
  shows "perm_inv p m < d \<and> p ! perm_inv p m = m"
proof -
  from assms have "m \<in> set p"
    by (simp add: is_permutation_def)
  then obtain l where l: "l < length p" "p ! l = m"
    by (auto simp: in_set_conv_nth)
  with assms(1) have "perm_inv p m = l"
    using perm_inv_nth [OF is_permutation_distinct [OF assms(1)] l(1)] by simp
  with l assms(1) show ?thesis
    by (simp add: is_permutation_def)
qed

lemma is_permutation_bij:
  assumes "is_permutation d p"
  shows "bij_betw ((!) p) {..<d} {..<d}"
proof (rule bij_betw_nth)
  show "distinct p"
    using assms by (rule is_permutation_distinct)
  show "{..<d} = {..<length p}"
    using assms by (simp add: is_permutation_def)
  show "{..<d} = set p"
    using assms by (simp add: is_permutation_def atLeast0LessThan)
qed

subsection \<open>Permuted tuples\<close>

lemma length_permute_index [simp]: "length (permute_index p t) = length p"
  by (simp add: permute_index_def)

lemma permute_index_nth:
  "m < length p \<Longrightarrow> permute_index p t ! m = t ! perm_inv p m"
  by (simp add: permute_index_def)

lemma permute_index_at_perm:
  "is_permutation d p \<Longrightarrow> l < d \<Longrightarrow> permute_index p t ! (p ! l) = t ! l"
  using is_permutation_nth_less [of d p l]
  by (simp add: permute_index_nth perm_inv_nth is_permutation_distinct is_permutation_def)

lemma permute_index_inject:
  assumes p: "is_permutation d p" and len: "length t = d" "length t' = d"
    and eq: "permute_index p t = permute_index p t'"
  shows "t = t'"
proof (rule nth_equalityI)
  show "length t = length t'" using len by simp
next
  fix l assume "l < length t"
  then have l: "l < d" using len by simp
  have "t ! l = permute_index p t ! (p ! l)"
    using permute_index_at_perm [OF p l] by simp
  also have "\<dots> = t' ! l"
    using permute_index_at_perm [OF p l] eq by simp
  finally show "t ! l = t' ! l" .
qed

lemma permute_index_map_nth:
  assumes p: "is_permutation d p" and len: "length i = d"
  shows "permute_index p (map ((!) i) p) = i"
proof (rule nth_equalityI)
  show "length (permute_index p (map ((!) i) p)) = length i"
    using p len by (simp add: is_permutation_def)
next
  fix m assume "m < length (permute_index p (map ((!) i) p))"
  then have m: "m < d" using p by (simp add: is_permutation_def)
  from nth_perm_inv [OF p m] p show "permute_index p (map ((!) i) p) ! m = i ! m"
    by (simp add: permute_index_nth is_permutation_def m)
qed

text \<open>A sum of strides taken in a permuted order is the offset of the permuted tuple.\<close>

lemma offset_permuted_strides:
  assumes p: "is_permutation d p" and len: "length t = d"
  shows "(\<Sum>l<d. t ! l * ld ! (p ! l)) = offset ld (permute_index p t)"
proof -
  have "(\<Sum>l<d. t ! l * ld ! (p ! l)) = (\<Sum>l<d. permute_index p t ! (p ! l) * ld ! (p ! l))"
    by (rule sum.cong) (simp_all add: permute_index_at_perm [OF p])
  also have "\<dots> = (\<Sum>m<d. permute_index p t ! m * ld ! m)"
    by (rule sum.reindex_bij_betw [OF is_permutation_bij [OF p]])
  finally show ?thesis
    using p by (simp add: offset_def is_permutation_def)
qed

subsection \<open>Leading dimensions and offsets\<close>

lemma length_computeLeadingDimensions [simp]:
  "length (computeLeadingDimensions outer) = length outer"
  by (simp add: computeLeadingDimensions_def)

lemma computeLeadingDimensions_Cons:
  "computeLeadingDimensions (n # outer) = 1 # map ((*) n) (computeLeadingDimensions outer)"
proof (rule nth_equalityI)
  show "length (computeLeadingDimensions (n # outer))
      = length (1 # map ((*) n) (computeLeadingDimensions outer))"
    by simp
next
  fix k assume "k < length (computeLeadingDimensions (n # outer))"
  then have k: "k < Suc (length outer)" by simp
  show "computeLeadingDimensions (n # outer) ! k
      = (1 # map ((*) n) (computeLeadingDimensions outer)) ! k"
  proof (cases k)
    case 0
    then show ?thesis
      by (simp add: computeLeadingDimensions_def upt_rec)
  next
    case (Suc k')
    with k have "k' < length outer" by simp
    with Suc show ?thesis
      by (simp add: computeLeadingDimensions_def del: upt_Suc)
  qed
qed

lemma offset_Cons:
  assumes "length js = length outer"
  shows "offset (computeLeadingDimensions (n # outer)) (j # js)
       = j + n * offset (computeLeadingDimensions outer) js"
proof -
  let ?L = "computeLeadingDimensions outer"
  have "offset (1 # map ((*) n) ?L) (j # js)
      = (\<Sum>k<Suc (length js). (j # js) ! k * (1 # map ((*) n) ?L) ! k)"
    by (simp add: offset_def)
  also have "\<dots> = j + (\<Sum>k<length js. js ! k * (map ((*) n) ?L) ! k)"
    by (simp add: sum.lessThan_Suc_shift del: sum.lessThan_Suc)
  also have "(\<Sum>k<length js. js ! k * (map ((*) n) ?L) ! k)
      = (\<Sum>k<length js. n * (js ! k * ?L ! k))"
    by (rule sum.cong) (simp_all add: assms)
  also have "\<dots> = n * offset ?L js"
    by (simp add: offset_def sum_distrib_left)
  finally show ?thesis
    by (simp add: computeLeadingDimensions_Cons)
qed

lemma offset_inject:
  assumes "in_domain outer j" and "in_domain outer j'"
    and "offset (computeLeadingDimensions outer) j = offset (computeLeadingDimensions outer) j'"
  shows "j = j'"
  using assms
proof (induction outer arbitrary: j j')
  case Nil
  then show ?case by (simp add: in_domain_def)
next
  case (Cons n outer)
  from Cons.prems(1) obtain x xs where j: "j = x # xs" "x < n" "in_domain outer xs"
    by (auto simp: in_domain_def list_all2_Cons2)
  from Cons.prems(2) obtain y ys where j': "j' = y # ys" "y < n" "in_domain outer ys"
    by (auto simp: in_domain_def list_all2_Cons2)
  have len: "length xs = length outer" "length ys = length outer"
    using j(3) j'(3) by (auto simp: in_domain_def dest: list_all2_lengthD)
  let ?L = "computeLeadingDimensions outer"
  have eq: "x + n * offset ?L xs = y + n * offset ?L ys"
    using Cons.prems(3) by (simp add: j j' offset_Cons len)
  have "(x + n * offset ?L xs) mod n = (y + n * offset ?L ys) mod n"
    using eq by simp
  then have xy: "x = y"
    using j(2) j'(2) by simp
  have "(x + n * offset ?L xs) div n = (y + n * offset ?L ys) div n"
    using eq by simp
  then have "offset ?L xs = offset ?L ys"
    using j(2) j'(2) by simp
  then have "xs = ys"
    using Cons.IH j(3) j'(3) by blast
  with xy show ?case by (simp add: j j')
qed

subsection \<open>Offsets along a list of strides\<close>

lemma offset_Nil [simp]: "offset ld [] = 0"
  by (simp add: offset_def)

lemma offset_strides_Cons: "offset (s # ss) (i # t) = i * s + offset ss t"
proof -
  have "offset (s # ss) (i # t) = (\<Sum>k<Suc (length t). (i # t) ! k * (s # ss) ! k)"
    by (simp add: offset_def)
  also have "\<dots> = i * s + (\<Sum>k<length t. t ! k * ss ! k)"
    by (simp add: sum.lessThan_Suc_shift del: sum.lessThan_Suc)
  finally show ?thesis
    by (simp add: offset_def)
qed

subsection \<open>Index domains\<close>

lemma in_domain_length: "in_domain sizes i \<Longrightarrow> length i = length sizes"
  by (simp add: in_domain_def list_all2_lengthD)

lemma in_domain_nth: "in_domain sizes i \<Longrightarrow> k < length sizes \<Longrightarrow> i ! k < sizes ! k"
  by (simp add: in_domain_def list_all2_conv_all_nth)

lemma in_domainI:
  "length i = length sizes \<Longrightarrow> (\<And>k. k < length sizes \<Longrightarrow> i ! k < sizes ! k)
   \<Longrightarrow> in_domain sizes i"
  by (simp add: in_domain_def list_all2_conv_all_nth)

lemma in_domain_mono:
  assumes "in_domain sizes i" and "list_all2 (\<lambda>s n. s \<le> n) sizes outer"
  shows "in_domain outer i"
proof (rule in_domainI)
  show "length i = length outer"
    using assms by (simp add: in_domain_length list_all2_lengthD [symmetric])
next
  fix k assume "k < length outer"
  then have k: "k < length sizes"
    using assms(2) by (simp add: list_all2_lengthD)
  have "i ! k < sizes ! k"
    using assms(1) k by (rule in_domain_nth)
  moreover have "sizes ! k \<le> outer ! k"
    using assms(2) k by (simp add: list_all2_conv_all_nth)
  ultimately show "i ! k < outer ! k"
    by simp
qed

lemma set_index_tuples: "set (index_tuples extents) = {t. in_domain extents t}"
  by (simp add: index_tuples_def product_lists_set in_domain_def list_all2_map2)

lemma distinct_index_tuples: "distinct (index_tuples extents)"
  unfolding index_tuples_def by (rule distinct_product_lists) auto

lemma permute_in_domain:
  assumes p: "is_permutation d p" and len: "length sizes = d"
    and t: "in_domain (map ((!) sizes) p) t"
  shows "in_domain sizes (permute_index p t)"
proof (rule in_domainI)
  show "length (permute_index p t) = length sizes"
    using p len by (simp add: is_permutation_def)
next
  fix k assume "k < length sizes"
  then have k: "k < d" using len by simp
  from nth_perm_inv [OF p k] have inv: "perm_inv p k < d" "p ! perm_inv p k = k"
    by simp_all
  have "t ! perm_inv p k < map ((!) sizes) p ! perm_inv p k"
    using t inv(1) p by (intro in_domain_nth) (simp_all add: is_permutation_def)
  then show "permute_index p t ! k < sizes ! k"
    using inv p k by (simp add: permute_index_nth is_permutation_def)
qed

lemma permute_in_sizeB:
  assumes p: "is_permutation d p" and len: "length sizes = d" and i: "in_domain sizes i"
  shows "in_domain (sizeB sizes p) (permute_index p i)"
proof (rule in_domainI)
  show "length (permute_index p i) = length (sizeB sizes p)"
    by (simp add: sizeB_def)
next
  fix m assume "m < length (sizeB sizes p)"
  then have m: "m < d" using p by (simp add: sizeB_def is_permutation_def)
  from nth_perm_inv [OF p m] have "perm_inv p m < length sizes"
    using len by simp
  with i have "i ! perm_inv p m < sizes ! perm_inv p m"
    by (rule in_domain_nth)
  then show "permute_index p i ! m < sizeB sizes p ! m"
    using m p by (simp add: permute_index_nth sizeB_def is_permutation_def)
qed

lemma valid_inputD:
  assumes "valid_input sizeA perm outerSizeA outerSizeB"
  shows "is_permutation (length sizeA) perm"
    and "list_all2 (\<lambda>s n. s \<le> n) sizeA outerSizeA"
    and "list_all2 (\<lambda>s n. s \<le> n) (sizeB sizeA perm) outerSizeB"
  using assms by (simp_all add: valid_input_def)

subsection \<open>Multisets of element operations\<close>

text \<open>
  \<open>combine\<close> is commutative and associative with the unit \<open>{#(0, 0)#}\<close>, and it distributes
  over sums of multisets.
\<close>

lemma shift_commute: "shift x y = shift y x"
  by (simp add: shift_def add.commute)

lemma shift_shift: "shift x (shift y z) = shift (shift x y) z"
  by (simp add: shift_def add_ac)

lemma shift_zero [simp]: "shift (0, 0) p = p" "shift p (0, 0) = p"
  by (simp_all add: shift_def)

lemma combine_empty [simp]: "combine {#} Y = {#}" "combine X {#} = {#}"
  by (simp_all add: combine_def)

lemma combine_add_mset: "combine (add_mset x X) Y = image_mset (shift x) Y + combine X Y"
  by (simp add: combine_def)

lemma combine_union_left: "combine (X + X') Y = combine X Y + combine X' Y"
  by (simp add: combine_def)

lemma combine_union_right: "combine X (Y + Y') = combine X Y + combine X Y'"
  by (simp add: combine_def sum_mset.distrib)

lemma combine_single_right: "combine X {#y#} = image_mset (\<lambda>x. shift x y) X"
  by (simp add: combine_def)

lemma combine_commute: "combine X Y = combine Y X"
proof (induction X)
  case empty
  show ?case by simp
next
  case (add x X)
  have "combine Y (add_mset x X) = combine Y {#x#} + combine Y X"
    using combine_union_right [of Y "{#x#}" X] by simp
  also have "combine Y {#x#} = image_mset (shift x) Y"
    by (simp add: combine_single_right shift_commute [of _ x])
  finally show ?case
    by (simp add: combine_add_mset add.IH)
qed

lemma image_shift_combine: "image_mset (shift p) (combine X Y) = combine (image_mset (shift p) X) Y"
proof (induction X)
  case empty
  show ?case by simp
next
  case (add x X)
  have "image_mset (shift p) (image_mset (shift x) Y) = image_mset (shift (shift p x)) Y"
    by (simp add: multiset.map_comp comp_def shift_shift)
  then show ?case
    by (simp add: combine_add_mset add.IH)
qed

lemma combine_assoc: "combine (combine X Y) Z = combine X (combine Y Z)"
proof (induction X)
  case empty
  show ?case by simp
next
  case (add x X)
  have "combine (image_mset (shift x) Y) Z = image_mset (shift x) (combine Y Z)"
    by (simp add: image_shift_combine)
  then show ?case
    by (simp add: combine_add_mset combine_union_left add.IH)
qed

lemma shift_zero_fun [simp]: "shift (0, 0) = (\<lambda>p. p)"
  by (rule ext) simp

lemma combine_unit [simp]: "combine {#(0, 0)#} Y = Y" "combine X {#(0, 0)#} = X"
  by (simp_all add: combine_def)

lemma combine_left_commute: "combine X (combine Y Z) = combine Y (combine X Z)"
  by (metis combine_assoc combine_commute)

lemma combine_sum_list_right:
  "combine X (\<Sum>i\<leftarrow>is. F i) = (\<Sum>i\<leftarrow>is. combine X (F i))"
  by (induction "is") (simp_all add: combine_union_right)

lemma combine_sum_list_left:
  "combine (\<Sum>i\<leftarrow>is. F i) Y = (\<Sum>i\<leftarrow>is. combine (F i) Y)"
  by (induction "is") (simp_all add: combine_union_left)

lemma image_mset_sum_list:
  "image_mset f (\<Sum>i\<leftarrow>is. F i) = (\<Sum>i\<leftarrow>is. image_mset f (F i))"
  by (induction "is") simp_all

subsection \<open>Loops, tiles and chunks\<close>

text \<open>
  A loop over \<open>[s, e)\<close> with a positive step is the sum of its blocks, a loop split in two
  nested loops is one loop, and the chunks of the workers add up to the whole axis.
\<close>

lemma span_empty [simp]: "e \<le> s \<Longrightarrow> span s e sa sb = {#}"
  by (simp add: span_def)

lemma span_split: "s \<le> m \<Longrightarrow> m \<le> e \<Longrightarrow> span s e sa sb = span s m sa sb + span m e sa sb"
proof -
  assume "s \<le> m" "m \<le> e"
  then have "[s..<e] = [s..<m] @ [m..<e]"
    by (metis le_Suc_ex upt_add_eq_append)
  then show ?thesis
    by (simp add: span_def del: mset_upt)
qed

lemma shift_span: "image_mset (shift (i * sa, i * sb)) (span 0 r sa sb) = span i (i + r) sa sb"
proof -
  have "map (\<lambda>x. shift (i * sa, i * sb) (x * sa, x * sb)) [0..<r]
      = map (\<lambda>x. (x * sa, x * sb)) (map (\<lambda>x. x + i) [0..<r])"
    by (simp add: shift_def comp_def add_mult_distrib)
  also have "map (\<lambda>x. x + i) [0..<r] = [i..<i + r]"
    by (simp add: map_add_upt add.commute)
  finally show ?thesis
    by (simp add: span_def multiset.map_comp comp_def del: mset_upt flip: mset_map)
qed

lemma span_one: "span i (Suc i) sa sb = {#(i * sa, i * sb)#}"
  by (simp add: span_def)

text \<open>The blocks of a loop with a step cover its range.\<close>

lemma combine_single: "combine X {#y#} = image_mset (shift y) X"
proof -
  have "(\<lambda>x. shift x y) = shift y"
    by (rule ext) (rule shift_commute)
  then show ?thesis
    by (simp add: combine_single_right)
qed

lemma loop_blocks:
  "0 < step \<Longrightarrow>
   (\<Sum>i\<leftarrow>loop_from s e step. image_mset (shift (i * sa, i * sb)) (span 0 (min step (e - i)) sa sb))
   = span s e sa sb"
proof (induction s e step rule: loop_from.induct)
  case (1 i e step)
  let ?f = "\<lambda>i. image_mset (shift (i * sa, i * sb)) (span 0 (min step (e - i)) sa sb)"
  show ?case
  proof (cases "i < e")
    case False
    then show ?thesis
      by (simp add: loop_from.simps [of i e step])
  next
    case True
    have unfold: "loop_from i e step = i # loop_from (i + step) e step"
      using True "1.prems" by (simp add: loop_from.simps [of i e step])
    have rest: "(\<Sum>j\<leftarrow>loop_from (i + step) e step. ?f j) = span (i + step) e sa sb"
      using "1.IH" True "1.prems" by simp
    have "i + min step (e - i) = min (i + step) e"
      using True by simp
    then have first: "?f i = span i (min (i + step) e) sa sb"
      by (simp only: shift_span)
    have "(\<Sum>j\<leftarrow>loop_from i e step. ?f j) = ?f i + (\<Sum>j\<leftarrow>loop_from (i + step) e step. ?f j)"
      by (simp only: unfold list.map sum_list.Cons)
    also have "\<dots> = span i (min (i + step) e) sa sb + span (i + step) e sa sb"
      by (simp only: first rest)
    also have "\<dots> = span i e sa sb"
    proof (cases "i + step \<le> e")
      case True
      then have "span i e sa sb = span i (i + step) sa sb + span (i + step) e sa sb"
        by (intro span_split) simp_all
      with True show ?thesis
        by (simp add: min_absorb1)
    next
      case False
      then have "span (i + step) e sa sb = {#}" "min (i + step) e = e"
        by simp_all
      then show ?thesis
        by simp
    qed
    finally show ?thesis .
  qed
qed

lemma loop_from_unit_step: "loop_from s e (Suc 0) = [s..<e]"
proof (induction s e "Suc 0" rule: loop_from.induct)
  case (1 i e)
  show ?case
  proof (cases "i < e")
    case True
    with 1 show ?thesis
      by (simp add: loop_from.simps [of i e "Suc 0"] upt_rec [of i e])
  next
    case False
    then show ?thesis
      by (simp add: loop_from.simps [of i e "Suc 0"])
  qed
qed

text \<open>Two loops, the second with the extent of the first as its stride factor, are one loop.\<close>

lemma span_merge:
  "combine (span 0 n1 sa sb) (span 0 n2 (n1 * sa) (n1 * sb)) = span 0 (n1 * n2) sa sb"
proof (induction n2)
  case 0
  show ?case by simp
next
  case (Suc n2)
  let ?X = "span 0 n1 sa sb"
  have "span 0 (Suc n2) (n1 * sa) (n1 * sb)
      = span 0 n2 (n1 * sa) (n1 * sb) + span n2 (Suc n2) (n1 * sa) (n1 * sb)"
    by (intro span_split) simp_all
  also have "span n2 (Suc n2) (n1 * sa) (n1 * sb) = {#((n1 * n2) * sa, (n1 * n2) * sb)#}"
    by (simp add: span_one mult_ac)
  finally have "combine ?X (span 0 (Suc n2) (n1 * sa) (n1 * sb))
      = combine ?X (span 0 n2 (n1 * sa) (n1 * sb))
        + combine ?X {#((n1 * n2) * sa, (n1 * n2) * sb)#}"
    by (simp only: combine_union_right)
  also have "\<dots> = span 0 (n1 * n2) sa sb
        + image_mset (shift ((n1 * n2) * sa, (n1 * n2) * sb)) ?X"
    by (simp only: Suc.IH combine_single)
  also have "\<dots> = span 0 (n1 * n2) sa sb + span (n1 * n2) (n1 * n2 + n1) sa sb"
    by (simp only: shift_span)
  also have "\<dots> = span 0 (n1 * Suc n2) sa sb"
    using span_split [of 0 "n1 * n2" "n1 * Suc n2" sa sb] by (simp add: add.commute)
  finally show ?case .
qed

text \<open>The chunks of the workers cover the axis.\<close>

lemma chunks_cover_upto:
  "(\<Sum>q\<leftarrow>[0..<k]. span (min n (q * c)) (min n ((q + 1) * c)) sa sb) = span 0 (min n (k * c)) sa sb"
proof (induction k)
  case 0
  show ?case by simp
next
  case (Suc k)
  have "span 0 (min n (Suc k * c)) sa sb
      = span 0 (min n (k * c)) sa sb + span (min n (k * c)) (min n (Suc k * c)) sa sb"
    by (intro span_split) simp_all
  with Suc show ?case
    by simp
qed

lemma chunks_cover:
  assumes "0 < p"
  shows "(\<Sum>q\<leftarrow>[0..<p]. span (fst (chunk n p q)) (snd (chunk n p q)) sa sb) = span 0 n sa sb"
proof -
  let ?c = "(n + p - 1) div p"
  have "n \<le> p * ?c"
  proof -
    have "n + p - 1 < p * ?c + p"
      using assms by (metis add.commute dividend_less_times_div)
    then show ?thesis by simp
  qed
  then have "min n (p * ?c) = n"
    by simp
  then show ?thesis
    using chunks_cover_upto [of n ?c sa sb p] by (simp add: chunk_def Let_def)
qed

subsection \<open>Kernels and the walker\<close>

text \<open>
  The element operations of a kernel are those of the nest of its blocks, whether it runs the
  micro-kernel or the scalar path, and the walk of a chain of nodes with positive increments
  ends with the operations of the ranges of the chain.
\<close>

lemma combine_mset_map:
  "combine (mset (map f xs)) Y = (\<Sum>x\<leftarrow>xs. image_mset (shift (f x)) Y)"
  by (induction xs) (simp_all add: combine_add_mset)

lemma combine_span:
  "combine (span s e sa sb) Y = (\<Sum>i\<leftarrow>[s..<e]. image_mset (shift (i * sa, i * sb)) Y)"
  unfolding span_def by (rule combine_mset_map)

lemma mset_concat_map:
  "mset (concat (map f xs)) = (\<Sum>x\<leftarrow>xs. mset (f x))"
  by (induction xs) simp_all

lemma shift_pair: "shift (a, b) (shift (c, d) p) = shift (a + c, b + d) p"
  by (simp add: shift_def)

lemma image_shift_shift:
  "image_mset (shift (a + c, b + d)) Y = image_mset (shift (a, b)) (image_mset (shift (c, d)) Y)"
  by (simp add: multiset.map_comp comp_def shift_pair)

lemma image_shift_combine_right:
  "image_mset (shift p) (combine X Y) = combine X (image_mset (shift p) Y)"
  by (metis combine_commute image_shift_combine)

lemmas combine_ac = combine_assoc combine_commute combine_left_commute

lemma blocks_span_Nil [simp]: "blocks_span [] = {#(0, 0)#}"
  by (simp add: blocks_span_def)

lemma blocks_span_Cons [simp]:
  "blocks_span ((n, sa, sb) # blocks) = combine (span 0 n sa sb) (blocks_span blocks)"
  by (simp add: blocks_span_def)

lemma blocks_span_append:
  "blocks_span (xs @ ys) = combine (blocks_span xs) (blocks_span ys)"
proof (induction xs)
  case Nil
  show ?case by simp
next
  case (Cons x xs)
  obtain n sa sb where x: "x = (n, sa, sb)" by (cases x)
  show ?case by (simp add: x Cons combine_assoc)
qed

lemma combine_unit_right [simp]: "combine X {#(0, 0)#} = X"
  by (simp add: combine_single)

lemma blocks_span_snoc:
  "blocks_span (blocks @ [(n, sa, sb)]) = combine (blocks_span blocks) (span 0 n sa sb)"
  by (simp add: blocks_span_append)

lemma nest_ops_mset:
  "mset (nest_ops loops a b) = image_mset (shift (a, b)) (blocks_span loops)"
proof (induction loops arbitrary: a b)
  case Nil
  show ?case by (simp add: shift_def)
next
  case (Cons x loops)
  obtain n sa sb where x: "x = (n, sa, sb)" by (cases x)
  have "mset (nest_ops (x # loops) a b) =
      (\<Sum>i\<leftarrow>[0..<n]. image_mset (shift (a + i * sa, b + i * sb)) (blocks_span loops))"
    by (simp add: x mset_concat_map Cons del: mset_upt)
  also have "\<dots> = (\<Sum>i\<leftarrow>[0..<n]. image_mset (shift (a, b))
        (image_mset (shift (i * sa, i * sb)) (blocks_span loops)))"
    by (simp only: image_shift_shift)
  also have "\<dots> = image_mset (shift (a, b)) (combine (span 0 n sa sb) (blocks_span loops))"
    by (simp only: combine_span image_mset_sum_list map_map comp_def)
  finally show ?case by (simp add: x)
qed

lemma micro_kernel_nest:
  "micro_kernel M m sa1 sb1 sa2 sb2 a b =
     nest_ops [(M div m, m * sa1, m * sb1), (M div m, m * sa2, m * sb2),
               (m, sa1, sb1), (m, sa2, sb2)] a b"
  by (simp add: micro_kernel_def register_tile_def)

lemma micro_kernel_mset:
  assumes "m * (M div m) = M"
  shows "mset (micro_kernel M m sa1 sb1 sa2 sb2 a b) =
     image_mset (shift (a, b)) (blocks_span [(M, sa1, sb1), (M, sa2, sb2)])"
proof -
  let ?q = "M div m"
  have m1: "combine (span 0 m sa1 sb1) (span 0 ?q (m * sa1) (m * sb1)) = span 0 M sa1 sb1"
    using span_merge [of m sa1 sb1 ?q] assms by simp
  have m2: "combine (span 0 m sa2 sb2) (span 0 ?q (m * sa2) (m * sb2)) = span 0 M sa2 sb2"
    using span_merge [of m sa2 sb2 ?q] assms by simp
  have "blocks_span [(?q, m * sa1, m * sb1), (?q, m * sa2, m * sb2), (m, sa1, sb1), (m, sa2, sb2)]
      = combine (span 0 ?q (m * sa1) (m * sb1)) (combine (span 0 ?q (m * sa2) (m * sb2))
          (combine (span 0 m sa1 sb1) (span 0 m sa2 sb2)))"
    by simp
  also have "\<dots> = combine (combine (span 0 m sa1 sb1) (span 0 ?q (m * sa1) (m * sb1)))
          (combine (span 0 m sa2 sb2) (span 0 ?q (m * sa2) (m * sb2)))"
    by (simp only: combine_ac)
  also have "\<dots> = blocks_span [(M, sa1, sb1), (M, sa2, sb2)]"
    by (simp add: m1 m2)
  finally show ?thesis
    by (simp only: micro_kernel_nest nest_ops_mset)
qed

lemma macro_kernel_mset:
  assumes "m * (M div m) = M"
  shows "mset (macro_kernel M m blocks a b) = image_mset (shift (a, b)) (blocks_span blocks)"
proof -
  have tile: "mset (micro_kernel M m sa1 sb1 sa2 sb2 a b) =
     image_mset (shift (a, b)) (blocks_span [(M, sa1, sb1), (M, sa2, sb2)])" for sa1 sb1 sa2 sb2
    by (rule micro_kernel_mset [OF assms])
  show ?thesis
    unfolding macro_kernel_def
    by (auto split: list.splits prod.splits simp add: nest_ops_mset tile simp del: blocks_span_Cons nest_ops.simps)
qed

lemma constStride1_kernel_mset:
  "mset (constStride1_kernel blocks a b) = image_mset (shift (a, b)) (blocks_span blocks)"
  by (simp add: constStride1_kernel_def nest_ops_mset)

lemma loop_from_less: "i \<in> set (loop_from s e step) \<Longrightarrow> i < e"
proof (induction s e step rule: loop_from.induct)
  case (1 j e step)
  then show ?case
    by (subst (asm) (2) loop_from.simps) (auto split: if_splits)
qed

lemma those_map_Some:
  assumes "\<And>x. x \<in> set xs \<Longrightarrow> \<exists>y. f x = Some y \<and> mset y = F x"
  shows "\<exists>ys. those (map f xs) = Some ys \<and> mset (concat ys) = (\<Sum>x\<leftarrow>xs. F x)"
  using assms
proof (induction xs)
  case Nil
  show ?case by simp
next
  case (Cons x xs)
  obtain y where y: "f x = Some y" "mset y = F x" using Cons.prems by auto
  obtain ys where ys: "those (map f xs) = Some ys" "mset (concat ys) = (\<Sum>x\<leftarrow>xs. F x)"
    using Cons.IH Cons.prems by auto
  show ?case by (simp add: y ys)
qed

lemma walker_level:
  assumes step: "0 < step"
    and inner: "\<And>i. i \<in> set (loop_from s e step) \<Longrightarrow>
        \<exists>y. g i = Some y \<and> mset y = image_mset (shift (a + i * sa, b + i * sb))
          (combine (combine BS (span 0 (min step (e - i)) sa sb)) REST)"
  shows "\<exists>ops. map_option concat (those (map g (loop_from s e step))) = Some ops \<and>
     mset ops = image_mset (shift (a, b)) (combine BS (combine (span s e sa sb) REST))"
proof -
  let ?F = "\<lambda>i. image_mset (shift (a + i * sa, b + i * sb))
          (combine (combine BS (span 0 (min step (e - i)) sa sb)) REST)"
  obtain ys where ys: "those (map g (loop_from s e step)) = Some ys"
      "mset (concat ys) = (\<Sum>i\<leftarrow>loop_from s e step. ?F i)"
    using those_map_Some [of "loop_from s e step" g ?F] inner by blast
  have F: "?F i = image_mset (shift (a, b)) (combine (combine BS REST)
        (image_mset (shift (i * sa, i * sb)) (span 0 (min step (e - i)) sa sb)))" for i
  proof -
    have "combine (combine BS (span 0 (min step (e - i)) sa sb)) REST
        = combine (combine BS REST) (span 0 (min step (e - i)) sa sb)"
      by (simp only: combine_ac)
    then show ?thesis
      by (simp only: image_shift_shift image_shift_combine_right)
  qed
  have "(\<Sum>i\<leftarrow>loop_from s e step. ?F i) = image_mset (shift (a, b)) (combine (combine BS REST)
      (\<Sum>i\<leftarrow>loop_from s e step. image_mset (shift (i * sa, i * sb)) (span 0 (min step (e - i)) sa sb)))"
    by (simp only: F combine_sum_list_right image_mset_sum_list map_map comp_def)
  also have "\<dots> = image_mset (shift (a, b)) (combine (combine BS REST) (span s e sa sb))"
    by (simp only: loop_blocks [OF step])
  also have "\<dots> = image_mset (shift (a, b)) (combine BS (combine (span s e sa sb) REST))"
    by (simp only: combine_ac)
  finally show ?thesis using ys by simp
qed

lemma blocks_span_step:
  assumes "i < e" "0 < step"
  shows "blocks_span (if step = 1 then blocks else blocks @ [(min step (e - i), sa, sb)])
     = combine (blocks_span blocks) (span 0 (min step (e - i)) sa sb)"
proof (cases "step = 1")
  case True
  then have "min step (e - i) = 1" using assms by simp
  then show ?thesis using True by (simp add: span_one)
next
  case False
  then show ?thesis by (simp add: blocks_span_snoc)
qed

lemma walker_mset:
  assumes kern: "\<And>blocks a b. mset (kern blocks a b) = image_mset (shift (a, b)) (blocks_span blocks)"
  shows "steps_positive node \<Longrightarrow> \<exists>ops. walker kern node blocks a b = Some ops \<and>
     mset ops = image_mset (shift (a, b)) (combine (blocks_span blocks) (chain_span node))"
proof (induction node arbitrary: blocks a b)
  case (ComputeNode s e step sa sb nxt)
  have step: "0 < step" using ComputeNode.prems by simp
  let ?REST = "case nxt of None \<Rightarrow> {#(0, 0)#} | Some n \<Rightarrow> chain_span n"
  let ?g = "\<lambda>i. let blocks' = (if step = 1 then blocks else blocks @ [(min step (e - i), sa, sb)])
             in case nxt of
                  None \<Rightarrow> Some (kern blocks' (a + i * sa) (b + i * sb))
                | Some n \<Rightarrow> walker kern n blocks' (a + i * sa) (b + i * sb)"
  have inner: "\<exists>y. ?g i = Some y \<and> mset y = image_mset (shift (a + i * sa, b + i * sb))
          (combine (combine (blocks_span blocks) (span 0 (min step (e - i)) sa sb)) ?REST)"
    if i: "i \<in> set (loop_from s e step)" for i
  proof -
    have ie: "i < e" using i by (rule loop_from_less)
    define bl where "bl = (if step = 1 then blocks else blocks @ [(min step (e - i), sa, sb)])"
    have bs: "blocks_span bl = combine (blocks_span blocks) (span 0 (min step (e - i)) sa sb)"
      unfolding bl_def by (rule blocks_span_step [OF ie step])
    have g: "?g i = (case nxt of None \<Rightarrow> Some (kern bl (a + i * sa) (b + i * sb))
        | Some n \<Rightarrow> walker kern n bl (a + i * sa) (b + i * sb))"
      unfolding bl_def Let_def ..
    show ?thesis
    proof (cases nxt)
      case None
      then show ?thesis unfolding g by (simp add: kern bs)
    next
      case (Some n)
      have pos: "steps_positive n" using ComputeNode.prems Some by simp
      have mem: "n \<in> set_option nxt" using Some by simp
      from ComputeNode.IH [OF mem pos, of bl "a + i * sa" "b + i * sb"] Some
      show ?thesis unfolding g by (simp add: bs)
    qed
  qed
  from walker_level [OF step, of s e ?g a sa b sb "blocks_span blocks" ?REST] inner
  show ?case using step by simp
qed

subsection \<open>The trees of a plan\<close>

text \<open>
  The trees of the tasks of a plan together run every loop of the descriptor once, in any
  loop order and for any parallelism vector of positive numbers.
\<close>

lemma getIncrement_positive: "0 < M \<Longrightarrow> 0 < getIncrement M D k"
  by (simp add: getIncrement_def max_def)

lemma createChain_span:
  "opt_span (createChain M D ls) = foldr (\<lambda>l. combine (level_span D l)) ls {#(0, 0)#}"
proof (induction ls)
  case Nil
  show ?case by (simp add: opt_span_def)
next
  case (Cons l ls)
  obtain k p q where l: "l = (k, p, q)" by (cases l)
  have "opt_span (createChain M D (l # ls)) = combine (level_span D l) (opt_span (createChain M D ls))"
    by (simp add: opt_span_def createNode_def l level_span_def Let_def split: prod.splits)
  then show ?case by (simp add: Cons)
qed

lemma createChain_positive:
  "0 < M \<Longrightarrow> opt_positive (createChain M D ls)"
proof (induction ls)
  case Nil
  show ?case by (simp add: opt_positive_def)
next
  case (Cons l ls)
  obtain k p q where l: "l = (k, p, q)" by (cases l)
  from Cons show ?case
    by (simp add: opt_positive_def createNode_def l Let_def getIncrement_positive split: prod.splits)
qed

lemma createTree_span:
  assumes "loopOrder \<noteq> []" "length numThreadsAtLoop = length loopOrder"
  shows "chain_span (createTree M D loopOrder numThreadsAtLoop t) =
     foldr (\<lambda>l. combine (level_span D l))
       (zip loopOrder (zip numThreadsAtLoop (task_digits numThreadsAtLoop t))) {#(0, 0)#}"
proof -
  have len: "length (task_digits ps t) = length ps" for ps t
    by (induction ps arbitrary: t) simp_all
  let ?ls = "zip loopOrder (zip numThreadsAtLoop (task_digits numThreadsAtLoop t))"
  have "?ls \<noteq> []" using assms len [of numThreadsAtLoop t]
    by (cases loopOrder; cases numThreadsAtLoop; cases "task_digits numThreadsAtLoop t") simp_all
  then obtain l ls where ls: "?ls = l # ls" by (cases ?ls) auto
  have "chain_span (createTree M D loopOrder numThreadsAtLoop t) = opt_span (createChain M D ?ls)"
    unfolding createTree_def ls by (simp add: opt_span_def)
  then show ?thesis by (simp only: createChain_span)
qed

lemma createTree_positive:
  assumes "loopOrder \<noteq> []" "length numThreadsAtLoop = length loopOrder" "0 < M"
  shows "steps_positive (createTree M D loopOrder numThreadsAtLoop t)"
proof -
  have len: "length (task_digits ps t) = length ps" for ps t
    by (induction ps arbitrary: t) simp_all
  let ?ls = "zip loopOrder (zip numThreadsAtLoop (task_digits numThreadsAtLoop t))"
  have "?ls \<noteq> []" using assms len [of numThreadsAtLoop t]
    by (cases loopOrder; cases numThreadsAtLoop; cases "task_digits numThreadsAtLoop t") simp_all
  then obtain l ls where ls: "?ls = l # ls" by (cases ?ls) auto
  have "opt_positive (createChain M D ?ls)" using assms(3) by (rule createChain_positive)
  then show ?thesis unfolding createTree_def ls by (simp add: opt_positive_def)
qed

lemma upt_shift: "[n..<n + m] = map (\<lambda>r. n + r) [0..<m]"
  by (rule nth_equalityI) simp_all

lemma map_upt_mult:
  "map f [0..<p * N] = concat (map (\<lambda>q. map (\<lambda>r. f (q * N + r)) [0..<N]) [0..<p])"
proof (induction p)
  case 0
  show ?case by simp
next
  case (Suc p)
  have "[0..<Suc p * N] = [0..<p * N + N]"
    by (simp only: mult_Suc add.commute)
  also have "\<dots> = [0..<p * N] @ [p * N..<p * N + N]"
    by (rule upt_add_eq_append) simp
  also have "\<dots> = [0..<p * N] @ map (\<lambda>r. p * N + r) [0..<N]"
    by (simp only: upt_shift [symmetric])
  finally have "map f [0..<Suc p * N] = map f [0..<p * N] @ map (\<lambda>r. f (p * N + r)) [0..<N]"
    by (simp only: map_append map_map comp_def)
  moreover have "concat (map (\<lambda>q. map (\<lambda>r. f (q * N + r)) [0..<N]) [0..<Suc p]) =
      concat (map (\<lambda>q. map (\<lambda>r. f (q * N + r)) [0..<N]) [0..<p]) @ map (\<lambda>r. f (p * N + r)) [0..<N]"
    by simp
  ultimately show ?case by (simp only: Suc)
qed

lemma task_digits_step:
  "r < prod_list ps \<Longrightarrow> task_digits (p # ps) (q * prod_list ps + r) = q # task_digits ps r"
  by simp

lemma task_digits_all:
  "map (task_digits ps) [0..<prod_list ps] = product_lists (map (\<lambda>p. [0..<p]) ps)"
proof (induction ps)
  case Nil
  show ?case by simp
next
  case (Cons p ps)
  let ?N = "prod_list ps"
  have inner: "map (\<lambda>r. task_digits (p # ps) (q * ?N + r)) [0..<?N] =
      map (Cons q) (map (task_digits ps) [0..<?N])" for q
    by (simp only: map_map comp_def) (rule map_cong [OF refl], simp only: task_digits_step atLeastLessThan_iff set_upt)
  have "map (task_digits (p # ps)) [0..<p * ?N] =
      concat (map (\<lambda>q. map (\<lambda>r. task_digits (p # ps) (q * ?N + r)) [0..<?N]) [0..<p])"
    by (rule map_upt_mult)
  also have "\<dots> = concat (map (\<lambda>q. map (Cons q) (map (task_digits ps) [0..<?N])) [0..<p])"
    by (simp only: inner)
  also have "\<dots> = product_lists (map (\<lambda>p. [0..<p]) (p # ps))"
    by (simp only: Cons list.map product_lists.simps)
  finally show ?case by (simp only: prod_list.Cons)
qed

lemma sum_list_concat_map:
  "(\<Sum>y\<leftarrow>concat (map g xs). f y) = (\<Sum>x\<leftarrow>xs. \<Sum>y\<leftarrow>g x. f y)"
  by (induction xs) simp_all

lemma level_span_chunks:
  assumes "0 < p"
  shows "(\<Sum>q\<leftarrow>[0..<p]. level_span D (k, p, q)) = blocks_span [axis_loop D k]"
  using chunks_cover [OF assms, of "d_sizeA D ! k"]
  by (simp add: level_span_def axis_loop_def)

lemma sum_levels:
  assumes "length lo = length par" "\<forall>p\<in>set par. 0 < p"
  shows "(\<Sum>qs\<leftarrow>product_lists (map (\<lambda>p. [0..<p]) par).
            foldr (\<lambda>l. combine (level_span D l)) (zip lo (zip par qs)) {#(0, 0)#})
         = blocks_span (map (axis_loop D) lo)"
  using assms
proof (induction lo par rule: list_induct2)
  case Nil
  show ?case by simp
next
  case (Cons k lo p par)
  let ?G = "\<lambda>qs. foldr (\<lambda>l. combine (level_span D l)) (zip lo (zip par qs)) {#(0, 0)#}"
  let ?PL = "product_lists (map (\<lambda>p. [0..<p]) par)"
  have p: "0 < p" using Cons.prems by simp
  have IH: "(\<Sum>qs\<leftarrow>?PL. ?G qs) = blocks_span (map (axis_loop D) lo)"
    using Cons.IH Cons.prems by simp
  have "(\<Sum>qs\<leftarrow>product_lists (map (\<lambda>p. [0..<p]) (p # par)).
            foldr (\<lambda>l. combine (level_span D l)) (zip (k # lo) (zip (p # par) qs)) {#(0, 0)#})
      = (\<Sum>q\<leftarrow>[0..<p]. \<Sum>qs\<leftarrow>?PL. combine (level_span D (k, p, q)) (?G qs))"
    by (simp add: sum_list_concat_map comp_def)
  also have "\<dots> = (\<Sum>q\<leftarrow>[0..<p]. combine (level_span D (k, p, q)) (\<Sum>qs\<leftarrow>?PL. ?G qs))"
    by (simp only: combine_sum_list_right)
  also have "\<dots> = combine (\<Sum>q\<leftarrow>[0..<p]. level_span D (k, p, q)) (\<Sum>qs\<leftarrow>?PL. ?G qs)"
    by (simp only: combine_sum_list_left)
  also have "\<dots> = combine (blocks_span [axis_loop D k]) (blocks_span (map (axis_loop D) lo))"
    by (simp only: level_span_chunks [OF p] IH)
  also have "\<dots> = blocks_span (map (axis_loop D) (k # lo))"
    using blocks_span_append [of "[axis_loop D k]" "map (axis_loop D) lo"] by simp
  finally show ?case .
qed

lemma blocks_span_mset:
  assumes "mset xs = mset ys"
  shows "blocks_span xs = blocks_span ys"
proof -
  let ?F = "\<lambda>(n, sa, sb). combine (span 0 n sa sb)"
  have comm: "?F x \<circ> ?F y = ?F y \<circ> ?F x" for x y :: "nat \<times> nat \<times> nat"
    by (cases x; cases y) (simp add: fun_eq_iff combine_left_commute)
  have "mset (rev xs) = mset (rev ys)" using assms by simp
  then have "fold ?F (rev xs) = fold ?F (rev ys)"
    by (rule fold_multiset_equiv [rotated]) (rule comm)
  then show ?thesis by (simp add: blocks_span_def foldr_conv_fold)
qed

lemma loop_order_mset:
  assumes "length lo = d" "distinct lo" "\<forall>x\<in>set lo. x < d"
  shows "mset lo = mset [0..<d]"
proof -
  have "set lo \<subseteq> {0..<d}" using assms(3) by auto
  moreover have "card (set lo) = d" using assms(1,2) by (simp add: distinct_card)
  ultimately have "set lo = {0..<d}" by (simp add: card_subset_eq)
  then have "mset_set (set lo) = mset_set {0..<d}" by simp
  then show ?thesis using assms(2) by (simp add: mset_set_set)
qed

lemma product_lists_replicate:
  "xs \<in> set (product_lists (replicate d ys)) \<Longrightarrow> length xs = d \<and> set xs \<subseteq> set ys"
  by (induction d arbitrary: xs) (auto, blast)

lemma getLoopOrders_mset:
  assumes "lo \<in> set (getLoopOrders d)"
  shows "length lo = d" "mset lo = mset [0..<d]"
proof -
  have mem: "lo \<in> set (product_lists (replicate d [0..<d]))" and dist: "distinct lo"
    using assms by (simp_all add: getLoopOrders_def)
  show len: "length lo = d" using product_lists_replicate [OF mem] by simp
  have "\<forall>x\<in>set lo. x < d"
    using product_lists_replicate [OF mem] by auto
  then show "mset lo = mset [0..<d]" using len dist by (intro loop_order_mset)
qed

lemma getParallelismStrategies_positive:
  assumes "par \<in> set (getParallelismStrategies d T)"
  shows "length par = d" "\<forall>p\<in>set par. 0 < p" "prod_list par = T"
proof -
  have mem: "par \<in> set (product_lists (replicate d [1..<Suc T]))"
    using assms by (simp add: getParallelismStrategies_def)
  show "prod_list par = T" using assms by (simp add: getParallelismStrategies_def)
  show "length par = d" using product_lists_replicate [OF mem] by simp
  have "set par \<subseteq> {1..<Suc T}"
    using product_lists_replicate [OF mem] by (simp del: upt_Suc)
  then show "\<forall>p\<in>set par. 0 < p" by auto
qed

lemma createPlans_cases:
  assumes "plan \<in> set (createPlans M D T)"
  obtains lo par where "plan = createPlan M D lo par"
    "length lo = length (d_sizeA D)" "mset lo = mset [0..<length (d_sizeA D)]"
    "length par = length (d_sizeA D)" "\<forall>p\<in>set par. 0 < p"
proof -
  from assms obtain lo par where lo: "lo \<in> set (getLoopOrders (length (d_sizeA D)))"
    and par: "par \<in> set (getParallelismStrategies (length (d_sizeA D)) T)"
    and plan: "plan = createPlan M D lo par"
    by (auto simp add: createPlans_def)
  show ?thesis
    using that [OF plan getLoopOrders_mset [OF lo] getParallelismStrategies_positive(1,2) [OF par]] .
qed

lemma createPlan_ops:
  assumes kern: "\<And>blocks a b. mset (kern blocks a b) = image_mset (shift (a, b)) (blocks_span blocks)"
    and M: "0 < M"
    and d: "1 \<le> length (d_sizeA D)"
    and lo: "length lo = length (d_sizeA D)" "mset lo = mset [0..<length (d_sizeA D)]"
    and par: "length par = length (d_sizeA D)" "\<forall>p\<in>set par. 0 < p"
  shows "\<exists>roots Ws. rootNodes' (createPlan M D lo par) = Some roots
     \<and> those (map (\<lambda>root. walker kern root [] 0 0) roots) = Some Ws
     \<and> mset (concat Ws) = blocks_span (axis_loops D)"
proof -
  let ?N = "prod_list par"
  let ?roots = "map (createTree M D lo par) [0..<?N]"
  let ?G = "\<lambda>qs. foldr (\<lambda>l. combine (level_span D l)) (zip lo (zip par qs)) {#(0, 0)#}"
  have ne: "lo \<noteq> []" using d lo(1) by auto
  have len: "length par = length lo" using lo(1) par(1) by simp
  have each: "\<exists>y. walker kern root [] 0 0 = Some y \<and> mset y = chain_span root"
    if "root \<in> set ?roots" for root
  proof -
    from that obtain t where root: "root = createTree M D lo par t" by auto
    have "steps_positive root" unfolding root by (rule createTree_positive [OF ne len M])
    from walker_mset [of kern root "[]" 0 0, OF kern this] show ?thesis by simp
  qed
  obtain Ws where Ws: "those (map (\<lambda>root. walker kern root [] 0 0) ?roots) = Some Ws"
      "mset (concat Ws) = (\<Sum>root\<leftarrow>?roots. chain_span root)"
    using those_map_Some [of ?roots "\<lambda>root. walker kern root [] 0 0" chain_span] each by blast
  have "(\<Sum>root\<leftarrow>?roots. chain_span root) = (\<Sum>t\<leftarrow>[0..<?N]. ?G (task_digits par t))"
    by (simp only: map_map comp_def createTree_span [OF ne len])
  also have "\<dots> = (\<Sum>qs\<leftarrow>map (task_digits par) [0..<?N]. ?G qs)"
    by (simp only: map_map comp_def)
  also have "\<dots> = blocks_span (map (axis_loop D) lo)"
    by (simp only: task_digits_all sum_levels [OF lo(1) [folded par(1)] par(2)])
  also have "\<dots> = blocks_span (axis_loops D)"
    unfolding axis_loops_def using lo(2) by (intro blocks_span_mset) (metis mset_map)
  finally show ?thesis using Ws by (simp add: createPlan_def)
qed

subsection \<open>Fusing axes\<close>

text \<open>
  Fusing a pair of axes keeps the descriptor well formed and keeps the element operations of
  its loops.
\<close>

lemma length_merge_at: "Suc k < length xs \<Longrightarrow> length (merge_at k xs) = length xs - 1"
  by (simp add: merge_at_def)

lemma find_fusible:
  "find (fusible D) ks = Some k \<Longrightarrow> fusible D k"
  by (induction ks) (auto split: if_splits)

lemma merge_at_nth:
  assumes "Suc k < length xs" "j < length xs - 1"
  shows "merge_at k xs ! j = (if j < k then xs ! j else if j = k then xs ! k * xs ! Suc k else xs ! Suc j)"
  using assms by (auto simp add: merge_at_def nth_append nth_Cons')

lemma remove_nth:
  assumes "Suc k < length xs" "j < length xs - 1"
  shows "(take (Suc k) xs @ drop (k + 2) xs) ! j = xs ! (if j \<le> k then j else Suc j)"
  using assms by (auto simp add: nth_append)

lemma take_two:
  assumes "Suc k < length xs"
  shows "take (k + 2) xs = take k xs @ [xs ! k, xs ! Suc k]"
proof -
  have "take (Suc (Suc k)) xs = take (Suc k) xs @ [xs ! Suc k]"
    using assms by (simp add: take_Suc_conv_app_nth)
  moreover have "take (Suc k) xs = take k xs @ [xs ! k]"
    using assms by (simp add: take_Suc_conv_app_nth)
  ultimately show ?thesis by simp
qed

lemma split_two:
  assumes "Suc k < length xs"
  shows "xs = take k xs @ [xs ! k, xs ! Suc k] @ drop (k + 2) xs"
proof -
  have "xs = take (k + 2) xs @ drop (k + 2) xs" by simp
  then show ?thesis using take_two [OF assms] by (metis append.assoc)
qed

lemma computeLeadingDimensions_nth:
  "j < length xs \<Longrightarrow> computeLeadingDimensions xs ! j = prod_list (take j xs)"
  by (simp add: computeLeadingDimensions_def)

lemma computeLeadingDimensions_Suc:
  "Suc j < length xs \<Longrightarrow>
     computeLeadingDimensions xs ! Suc j = xs ! j * computeLeadingDimensions xs ! j"
  by (simp add: computeLeadingDimensions_def take_Suc_conv_app_nth)

lemma computeLeadingDimensions_merge:
  assumes k: "Suc k < length xs" and j: "j < length xs - 1"
  shows "computeLeadingDimensions (merge_at k xs) ! j =
     computeLeadingDimensions xs ! (if j \<le> k then j else Suc j)"
proof (cases "j \<le> k")
  case True
  have "take j (merge_at k xs) = take j xs" using True k by (simp add: merge_at_def min_def)
  then show ?thesis using True k j by (simp add: computeLeadingDimensions_nth length_merge_at)
next
  case False
  then obtain r where r: "j = Suc k + r" using less_iff_Suc_add [of k j] by auto
  have "take j (merge_at k xs) = take k xs @ [xs ! k * xs ! Suc k] @ take r (drop (k + 2) xs)"
    using k by (simp add: merge_at_def r)
  moreover have "take (Suc j) xs = take k xs @ [xs ! k, xs ! Suc k] @ take r (drop (k + 2) xs)"
  proof -
    have "take (Suc j) xs = take (k + 2 + r) xs" by (simp add: r)
    also have "\<dots> = take (k + 2) xs @ take r (drop (k + 2) xs)" by (rule take_add)
    finally show ?thesis by (simp only: take_two [OF k] append.assoc)
  qed
  ultimately have "prod_list (take j (merge_at k xs)) = prod_list (take (Suc j) xs)"
    by (simp add: mult.assoc)
  then show ?thesis using False k j by (simp add: computeLeadingDimensions_nth length_merge_at)
qed

lemma well_formedD:
  assumes "well_formed D"
  shows "is_permutation (length (d_sizeA D)) (d_perm D)"
    "length (d_perm D) = length (d_sizeA D)"
    "length (d_outerSizeA D) = length (d_sizeA D)"
    "length (d_outerSizeB D) = length (d_sizeA D)"
  using assms by (simp_all add: well_formed_def is_permutation_def)

lemma fusible_bounds:
  assumes wf: "well_formed D" and f: "fusible D k"
  shows "Suc k < length (d_sizeA D)" "Suc (d_perm D ! k) < length (d_sizeA D)"
    "d_perm D ! Suc k = Suc (d_perm D ! k)"
proof -
  show k: "Suc k < length (d_sizeA D)" and eq: "d_perm D ! Suc k = Suc (d_perm D ! k)"
    using f by (simp_all add: fusible_def)
  show "Suc (d_perm D ! k) < length (d_sizeA D)"
    using is_permutation_nth_less [OF well_formedD(1) [OF wf] k] eq by simp
qed

lemma renumber_other:
  assumes wf: "well_formed D" and f: "fusible D k"
    and j: "j < length (d_sizeA D)" "j \<noteq> Suc k"
  shows "d_perm D ! j \<noteq> Suc (d_perm D ! k)"
proof
  assume "d_perm D ! j = Suc (d_perm D ! k)"
  then have "d_perm D ! j = d_perm D ! Suc k" using fusible_bounds(3) [OF wf f] by simp
  moreover have "distinct (d_perm D)" using well_formedD(1) [OF wf] by (rule is_permutation_distinct)
  ultimately have "j = Suc k"
    using j(1) fusible_bounds(1) [OF wf f] well_formedD(2) [OF wf]
    by (simp add: nth_eq_iff_index_eq)
  then show False using j(2) by simp
qed

lemma fuse_pair_perm_nth:
  assumes wf: "well_formed D" and f: "fusible D k" and j: "j < length (d_sizeA D) - 1"
  shows "d_perm (fuse_pair D k) ! j =
     (let v = d_perm D ! (if j \<le> k then j else Suc j) in if d_perm D ! k < v then v - 1 else v)"
proof -
  let ?Q = "take (Suc k) (d_perm D) @ drop (k + 2) (d_perm D)"
  have k: "Suc k < length (d_perm D)" using fusible_bounds(1) [OF wf f] well_formedD(2) [OF wf] by simp
  have j': "j < length (d_perm D) - 1" using j well_formedD(2) [OF wf] by simp
  have "j < length ?Q" using k j' by simp
  then have "d_perm (fuse_pair D k) ! j = (\<lambda>v. if d_perm D ! k < v then v - 1 else v) (?Q ! j)"
    unfolding fuse_pair_def Let_def by (simp only: descriptor.simps nth_map)
  then show ?thesis by (simp only: remove_nth [OF k j'] Let_def)
qed

lemma fuse_pair_ldb:
  assumes wf: "well_formed D" and f: "fusible D k" and j: "j < length (d_sizeA D) - 1"
  shows "computeLeadingDimensions (d_outerSizeB (fuse_pair D k)) ! (d_perm (fuse_pair D k) ! j) =
     computeLeadingDimensions (d_outerSizeB D) ! (d_perm D ! (if j \<le> k then j else Suc j))"
proof -
  let ?d = "length (d_sizeA D)"
  let ?m = "d_perm D ! k"
  let ?j = "if j \<le> k then j else Suc j"
  let ?v = "d_perm D ! ?j"
  let ?w = "if ?m < ?v then ?v - 1 else ?v"
  have jd: "?j < ?d" and jk: "?j \<noteq> Suc k" using j by auto
  have v: "?v < ?d" by (rule is_permutation_nth_less [OF well_formedD(1) [OF wf] jd])
  have ne: "?v \<noteq> Suc ?m" by (rule renumber_other [OF wf f jd jk])
  have m: "Suc ?m < length (d_outerSizeB D)"
    using fusible_bounds(2) [OF wf f] well_formedD(4) [OF wf] by simp
  have w: "?w < length (d_outerSizeB D) - 1"
    using v ne m well_formedD(4) [OF wf] by auto
  have restore: "(if ?w \<le> ?m then ?w else Suc ?w) = ?v" using ne by auto
  have "d_perm (fuse_pair D k) ! j = ?w"
    using fuse_pair_perm_nth [OF wf f j] by (simp only: Let_def)
  moreover have "d_outerSizeB (fuse_pair D k) = merge_at ?m (d_outerSizeB D)"
    by (simp add: fuse_pair_def Let_def)
  ultimately show ?thesis
    using computeLeadingDimensions_merge [OF m w] restore by simp
qed

lemma fuse_pair_axis_loop:
  assumes wf: "well_formed D" and f: "fusible D k" and j: "j < length (d_sizeA D) - 1"
  shows "axis_loop (fuse_pair D k) j =
     (if j < k then axis_loop D j
      else if j = k then (d_sizeA D ! k * d_sizeA D ! Suc k,
             computeLeadingDimensions (d_outerSizeA D) ! k,
             computeLeadingDimensions (d_outerSizeB D) ! (d_perm D ! k))
      else axis_loop D (Suc j))"
proof -
  have k: "Suc k < length (d_sizeA D)" by (rule fusible_bounds(1) [OF wf f])
  have kA: "Suc k < length (d_outerSizeA D)" and jA: "j < length (d_outerSizeA D) - 1"
    using k j well_formedD(3) [OF wf] by simp_all
  have s: "d_sizeA (fuse_pair D k) ! j =
      (if j < k then d_sizeA D ! j else if j = k then d_sizeA D ! k * d_sizeA D ! Suc k
       else d_sizeA D ! Suc j)"
    using merge_at_nth [OF k j] by (simp add: fuse_pair_def Let_def)
  have a: "computeLeadingDimensions (d_outerSizeA (fuse_pair D k)) ! j =
      computeLeadingDimensions (d_outerSizeA D) ! (if j \<le> k then j else Suc j)"
    using computeLeadingDimensions_merge [OF kA jA] by (simp add: fuse_pair_def Let_def)
  note b = fuse_pair_ldb [OF wf f j]
  show ?thesis
    unfolding axis_loop_def s a b by auto
qed

lemma length_fuse_pair:
  assumes "fusible D k"
  shows "length (d_sizeA (fuse_pair D k)) = length (d_sizeA D) - 1"
  using assms by (simp add: fuse_pair_def Let_def fusible_def length_merge_at)

lemma fuse_pair_loops:
  assumes wf: "well_formed D" and f: "fusible D k"
  shows "axis_loops (fuse_pair D k) =
     take k (axis_loops D)
     @ [(d_sizeA D ! k * d_sizeA D ! Suc k,
         computeLeadingDimensions (d_outerSizeA D) ! k,
         computeLeadingDimensions (d_outerSizeB D) ! (d_perm D ! k))]
     @ drop (k + 2) (axis_loops D)"
proof (rule nth_equalityI)
  have k: "Suc k < length (d_sizeA D)" by (rule fusible_bounds(1) [OF wf f])
  show len: "length (axis_loops (fuse_pair D k)) = length (take k (axis_loops D)
     @ [(d_sizeA D ! k * d_sizeA D ! Suc k,
         computeLeadingDimensions (d_outerSizeA D) ! k,
         computeLeadingDimensions (d_outerSizeB D) ! (d_perm D ! k))]
     @ drop (k + 2) (axis_loops D))"
    using k by (simp add: axis_loops_def length_fuse_pair [OF f])
  fix j assume "j < length (axis_loops (fuse_pair D k))"
  then have j: "j < length (d_sizeA D) - 1"
    by (simp add: axis_loops_def length_fuse_pair [OF f])
  have "axis_loops (fuse_pair D k) ! j = axis_loop (fuse_pair D k) j"
    using j by (simp add: axis_loops_def length_fuse_pair [OF f])
  moreover have "j < k \<Longrightarrow> axis_loops D ! j = axis_loop D j"
    using k by (simp add: axis_loops_def)
  moreover have "k < j \<Longrightarrow> axis_loops D ! Suc j = axis_loop D (Suc j)"
    using j by (simp add: axis_loops_def)
  ultimately show "axis_loops (fuse_pair D k) ! j = (take k (axis_loops D)
     @ [(d_sizeA D ! k * d_sizeA D ! Suc k,
         computeLeadingDimensions (d_outerSizeA D) ! k,
         computeLeadingDimensions (d_outerSizeB D) ! (d_perm D ! k))]
     @ drop (k + 2) (axis_loops D)) ! j"
    using k j fuse_pair_axis_loop [OF wf f j]
    by (auto simp add: nth_append nth_Cons' axis_loops_def)
qed

lemma fuse_pair_span:
  assumes wf: "well_formed D" and f: "fusible D k"
  shows "blocks_span (axis_loops (fuse_pair D k)) = blocks_span (axis_loops D)"
proof -
  let ?T = "axis_loops D"
  let ?n1 = "d_sizeA D ! k" and ?n2 = "d_sizeA D ! Suc k"
  let ?sa = "computeLeadingDimensions (d_outerSizeA D) ! k"
  let ?sb = "computeLeadingDimensions (d_outerSizeB D) ! (d_perm D ! k)"
  have k: "Suc k < length (d_sizeA D)" by (rule fusible_bounds(1) [OF wf f])
  have kT: "Suc k < length ?T" using k by (simp add: axis_loops_def)
  have kA: "Suc k < length (d_outerSizeA D)" using k well_formedD(3) [OF wf] by simp
  have mB: "Suc (d_perm D ! k) < length (d_outerSizeB D)"
    using fusible_bounds(2) [OF wf f] well_formedD(4) [OF wf] by simp
  have Tk: "?T ! k = (?n1, ?sa, ?sb)" using k by (simp add: axis_loops_def axis_loop_def)
  have "computeLeadingDimensions (d_outerSizeA D) ! Suc k = ?n1 * ?sa"
    using computeLeadingDimensions_Suc [OF kA] f by (simp add: fusible_def)
  moreover have "computeLeadingDimensions (d_outerSizeB D) ! (d_perm D ! Suc k) = ?n1 * ?sb"
    using computeLeadingDimensions_Suc [OF mB] f by (simp add: fusible_def)
  ultimately have TSk: "?T ! Suc k = (?n2, ?n1 * ?sa, ?n1 * ?sb)"
    using k by (simp add: axis_loops_def axis_loop_def)
  have pair: "blocks_span [?T ! k, ?T ! Suc k] = blocks_span [(?n1 * ?n2, ?sa, ?sb)]"
    unfolding Tk TSk using span_merge [of ?n1 ?sa ?sb ?n2] by simp
  have "blocks_span ?T = blocks_span (take k ?T @ [?T ! k, ?T ! Suc k] @ drop (k + 2) ?T)"
    using split_two [OF kT] by simp
  also have "\<dots> = combine (blocks_span (take k ?T))
      (combine (blocks_span [?T ! k, ?T ! Suc k]) (blocks_span (drop (k + 2) ?T)))"
    by (simp only: blocks_span_append)
  also have "\<dots> = blocks_span (take k ?T @ [(?n1 * ?n2, ?sa, ?sb)] @ drop (k + 2) ?T)"
    by (simp only: pair blocks_span_append)
  finally show ?thesis by (simp only: fuse_pair_loops [OF wf f])
qed

lemma fuse_pair_well_formed:
  assumes wf: "well_formed D" and f: "fusible D k"
  shows "well_formed (fuse_pair D k)"
proof -
  let ?d = "length (d_sizeA D)"
  let ?P = "d_perm D"
  let ?m = "?P ! k"
  let ?Q = "take (Suc k) ?P @ drop (k + 2) ?P"
  let ?r = "\<lambda>v. if ?m < v then v - 1 else v"
  have k: "Suc k < ?d" by (rule fusible_bounds(1) [OF wf f])
  have m: "Suc ?m < ?d" by (rule fusible_bounds(2) [OF wf f])
  have lenP: "length ?P = ?d" by (rule well_formedD(2) [OF wf])
  have setP: "set ?P = {0..<?d}" using well_formedD(1) [OF wf] by (simp add: is_permutation_def)
  have dist: "distinct ?P" using well_formedD(1) [OF wf] by (rule is_permutation_distinct)
  have P: "?P = take (Suc k) ?P @ ?P ! Suc k # drop (k + 2) ?P"
    using id_take_nth_drop [of "Suc k" ?P] k lenP by simp
  have "distinct (take (Suc k) ?P @ ?P ! Suc k # drop (k + 2) ?P)" using dist P by simp
  then have notin: "?P ! Suc k \<notin> set ?Q" by auto
  have "set ?P = insert (?P ! Suc k) (set ?Q)" by (subst P) auto
  then have setQ: "set ?Q = {0..<?d} - {Suc ?m}"
    using notin setP fusible_bounds(3) [OF wf f] by auto
  have img: "?r ` ({0..<?d} - {Suc ?m}) = {0..<?d - 1}"
  proof (rule set_eqI)
    fix w
    show "w \<in> ?r ` ({0..<?d} - {Suc ?m}) \<longleftrightarrow> w \<in> {0..<?d - 1}"
    proof
      assume "w \<in> ?r ` ({0..<?d} - {Suc ?m})"
      then obtain v where "w = ?r v" "v \<in> {0..<?d} - {Suc ?m}" by (rule imageE)
      then show "w \<in> {0..<?d - 1}" using m by (auto split: if_splits)
    next
      assume w: "w \<in> {0..<?d - 1}"
      show "w \<in> ?r ` ({0..<?d} - {Suc ?m})"
      proof (cases "w \<le> ?m")
        case True
        then have "w = ?r w" "w \<in> {0..<?d} - {Suc ?m}" using w by auto
        then show ?thesis by (rule image_eqI)
      next
        case False
        then have "w = ?r (Suc w)" "Suc w \<in> {0..<?d} - {Suc ?m}" using w by auto
        then show ?thesis by (rule image_eqI)
      qed
    qed
  qed
  have "d_perm (fuse_pair D k) = map ?r ?Q"
    unfolding fuse_pair_def Let_def by (simp only: descriptor.simps)
  then have "set (d_perm (fuse_pair D k)) = ?r ` set ?Q"
    by (simp only: set_map)
  then have "set (d_perm (fuse_pair D k)) = {0..<?d - 1}"
    by (simp only: setQ img)
  moreover have "length (d_perm (fuse_pair D k)) = ?d - 1"
    using k lenP by (simp add: fuse_pair_def Let_def)
  moreover have "length (d_outerSizeA (fuse_pair D k)) = ?d - 1"
    using k well_formedD(3) [OF wf] by (simp add: fuse_pair_def Let_def length_merge_at)
  moreover have "length (d_outerSizeB (fuse_pair D k)) = ?d - 1"
    using m well_formedD(4) [OF wf] by (simp add: fuse_pair_def Let_def length_merge_at)
  ultimately show ?thesis
    by (simp add: well_formed_def is_permutation_def length_fuse_pair [OF f])
qed

lemma fuseIndices_preserves:
  "well_formed D \<Longrightarrow> 1 \<le> length (d_sizeA D) \<Longrightarrow>
     well_formed (fuseIndices D) \<and> 1 \<le> length (d_sizeA (fuseIndices D))
     \<and> blocks_span (axis_loops (fuseIndices D)) = blocks_span (axis_loops D)"
proof (induction D rule: fuseIndices.induct)
  case (1 D)
  show ?case
  proof (cases "find (fusible D) (rev [0..<length (d_sizeA D)])")
    case None
    then show ?thesis using "1.prems" by (subst (1 2 3) fuseIndices.simps) simp
  next
    case (Some k)
    then have f: "fusible D k" by (rule find_fusible)
    have wf: "well_formed (fuse_pair D k)" by (rule fuse_pair_well_formed [OF "1.prems"(1) f])
    have "Suc k < length (d_sizeA D)" using f by (simp add: fusible_def)
    then have len: "1 \<le> length (d_sizeA (fuse_pair D k))"
      by (simp add: length_fuse_pair [OF f])
    have eq: "fuseIndices D = fuseIndices (fuse_pair D k)"
      by (subst fuseIndices.simps) (simp add: Some)
    show ?thesis
      unfolding eq using "1.IH" [OF Some wf len] fuse_pair_span [OF "1.prems"(1) f] by simp
  qed
qed

subsection \<open>What execute does\<close>

text \<open>
  The element operations of the contract have distinct destinations, none of them in the
  padding of B, and a run of execute performs exactly these operations, in some order.
\<close>

lemma index_tuples_Cons:
  "index_tuples (n # ns) = concat (map (\<lambda>x. map (Cons x) (index_tuples ns)) [0..<n])"
  by (simp add: index_tuples_def)

lemma loops_address_Cons:
  "loops_address ((n, sa, sb) # T) (x # i) = shift (x * sa, x * sb) (loops_address T i)"
  by (simp add: loops_address_def offset_strides_Cons shift_def)

lemma blocks_span_tuples:
  "blocks_span T = mset (map (loops_address T) (index_tuples (map fst T)))"
proof (induction T)
  case Nil
  show ?case by (simp add: index_tuples_def loops_address_def)
next
  case (Cons x T)
  obtain n sa sb where x: "x = (n, sa, sb)" by (cases x)
  let ?L = "index_tuples (map fst T)"
  have "mset (map (loops_address (x # T)) (index_tuples (map fst (x # T)))) =
      (\<Sum>y\<leftarrow>[0..<n]. mset (map (loops_address ((n, sa, sb) # T)) (map (Cons y) ?L)))"
    by (simp only: x list.map fst_conv index_tuples_Cons map_concat mset_concat_map map_map comp_def)
  also have "\<dots> = (\<Sum>y\<leftarrow>[0..<n]. image_mset (shift (y * sa, y * sb)) (mset (map (loops_address T) ?L)))"
    by (simp only: map_map comp_def loops_address_Cons mset_map multiset.map_comp)
  also have "\<dots> = combine (span 0 n sa sb) (blocks_span T)"
    by (simp only: combine_span Cons)
  finally show ?case by (simp add: x)
qed

lemma valid_well_formed:
  assumes "valid_descriptor D"
  shows "well_formed D"
proof -
  from assms have v: "valid_input (d_sizeA D) (d_perm D) (d_outerSizeA D) (d_outerSizeB D)"
    by (simp add: valid_descriptor_def)
  note p = valid_inputD(1) [OF v]
  have "length (d_sizeA D) = length (d_outerSizeA D)"
    using valid_inputD(2) [OF v] by (rule list_all2_lengthD)
  moreover have "length (sizeB (d_sizeA D) (d_perm D)) = length (d_outerSizeB D)"
    using valid_inputD(3) [OF v] by (rule list_all2_lengthD)
  moreover have "length (d_perm D) = length (d_sizeA D)" using p by (simp add: is_permutation_def)
  ultimately show ?thesis using p by (simp add: well_formed_def sizeB_def)
qed

lemma contract_ops_span:
  assumes wf: "well_formed D"
  shows "mset (contract_ops D) = blocks_span (axis_loops D)"
proof -
  let ?d = "length (d_sizeA D)"
  let ?lda = "computeLeadingDimensions (d_outerSizeA D)"
  let ?ldb = "computeLeadingDimensions (d_outerSizeB D)"
  have sizes: "map fst (axis_loops D) = d_sizeA D"
    by (simp add: axis_loops_def axis_loop_def comp_def map_nth)
  have addr: "loops_address (axis_loops D) i =
      (offset ?lda i, offset ?ldb (permute_index (d_perm D) i))"
    if i: "i \<in> set (index_tuples (d_sizeA D))" for i
  proof -
    have len: "length i = ?d" using i by (simp add: set_index_tuples in_domain_length)
    have "offset (map (fst \<circ> snd) (axis_loops D)) i = offset ?lda i"
      unfolding offset_def len by (rule sum.cong) (simp_all add: axis_loops_def axis_loop_def)
    moreover have "offset (map (snd \<circ> snd) (axis_loops D)) i
        = (\<Sum>l<?d. i ! l * ?ldb ! (d_perm D ! l))"
      unfolding offset_def len by (rule sum.cong) (simp_all add: axis_loops_def axis_loop_def)
    ultimately show ?thesis
      by (simp only: loops_address_def offset_permuted_strides [OF well_formedD(1) [OF wf] len])
  qed
  have "map (loops_address (axis_loops D)) (index_tuples (d_sizeA D)) = contract_ops D"
    unfolding contract_ops_def by (rule map_cong [OF refl]) (rule addr)
  then show ?thesis by (simp only: blocks_span_tuples sizes)
qed

lemma contract_destination:
  assumes v: "valid_descriptor D" and i: "in_domain (d_sizeA D) i"
  shows "in_domain (sizeB (d_sizeA D) (d_perm D)) (permute_index (d_perm D) i)"
    "in_domain (d_outerSizeB D) (permute_index (d_perm D) i)"
proof -
  from v have v': "valid_input (d_sizeA D) (d_perm D) (d_outerSizeA D) (d_outerSizeB D)"
    by (simp add: valid_descriptor_def)
  show "in_domain (sizeB (d_sizeA D) (d_perm D)) (permute_index (d_perm D) i)"
    using valid_inputD(1) [OF v'] refl i by (rule permute_in_sizeB)
  then show "in_domain (d_outerSizeB D) (permute_index (d_perm D) i)"
    using valid_inputD(3) [OF v'] by (rule in_domain_mono)
qed

lemma contract_ops_distinct:
  assumes v: "valid_descriptor D"
  shows "distinct (map snd (contract_ops D))"
proof -
  let ?g = "\<lambda>i. offset (computeLeadingDimensions (d_outerSizeB D)) (permute_index (d_perm D) i)"
  from v have v': "valid_input (d_sizeA D) (d_perm D) (d_outerSizeA D) (d_outerSizeB D)"
    by (simp add: valid_descriptor_def)
  have "inj_on ?g (set (index_tuples (d_sizeA D)))"
  proof (rule inj_onI)
    fix i i'
    assume "i \<in> set (index_tuples (d_sizeA D))" "i' \<in> set (index_tuples (d_sizeA D))"
    then have i: "in_domain (d_sizeA D) i" and i': "in_domain (d_sizeA D) i'"
      by (simp_all add: set_index_tuples)
    assume "?g i = ?g i'"
    with contract_destination(2) [OF v i] contract_destination(2) [OF v i']
    have "permute_index (d_perm D) i = permute_index (d_perm D) i'"
      by (rule offset_inject)
    with valid_inputD(1) [OF v'] in_domain_length [OF i] in_domain_length [OF i']
    show "i = i'" by (rule permute_index_inject)
  qed
  then have "distinct (map ?g (index_tuples (d_sizeA D)))"
    using distinct_index_tuples by (simp add: distinct_map)
  then show ?thesis by (simp add: contract_ops_def comp_def)
qed

lemma contract_ops_padding:
  assumes v: "valid_descriptor D"
    and j: "in_domain (d_outerSizeB D) j"
    and pad: "\<not> in_domain (sizeB (d_sizeA D) (d_perm D)) j"
  shows "offset (computeLeadingDimensions (d_outerSizeB D)) j \<notin> snd ` set (contract_ops D)"
proof
  assume "offset (computeLeadingDimensions (d_outerSizeB D)) j \<in> snd ` set (contract_ops D)"
  then obtain i where i: "in_domain (d_sizeA D) i"
    and eq: "offset (computeLeadingDimensions (d_outerSizeB D)) j =
             offset (computeLeadingDimensions (d_outerSizeB D)) (permute_index (d_perm D) i)"
    by (auto simp add: contract_ops_def set_index_tuples)
  from j contract_destination(2) [OF v i] eq have "j = permute_index (d_perm D) i"
    by (rule offset_inject)
  with contract_destination(1) [OF v i] pad show False by simp
qed

lemma apply_op_commute:
  assumes "snd p \<noteq> snd q"
  shows "apply_op alpha beta A p \<circ> apply_op alpha beta A q
       = apply_op alpha beta A q \<circ> apply_op alpha beta A p"
  using assms by (auto simp add: apply_op_def fun_eq_iff)

lemma apply_ops_mset:
  assumes eq: "mset P = mset R" and dist: "distinct (map snd R)"
  shows "apply_ops alpha beta A P B = apply_ops alpha beta A R B"
proof -
  have inj: "inj_on snd (set R)" using dist by (simp add: distinct_map)
  have "fold (apply_op alpha beta A) R = fold (apply_op alpha beta A) P"
  proof (rule fold_multiset_equiv)
    fix p q assume "p \<in> set R" "q \<in> set R"
    show "apply_op alpha beta A p \<circ> apply_op alpha beta A q
        = apply_op alpha beta A q \<circ> apply_op alpha beta A p"
    proof (cases "p = q")
      case True
      then show ?thesis by simp
    next
      case False
      then have "snd p \<noteq> snd q" using inj \<open>p \<in> set R\<close> \<open>q \<in> set R\<close> by (auto dest: inj_onD)
      then show ?thesis by (rule apply_op_commute)
    qed
  next
    show "mset R = mset P" using eq by simp
  qed
  then show ?thesis by (simp add: apply_ops_def)
qed

lemma apply_ops_other:
  "x \<notin> snd ` set P \<Longrightarrow> apply_ops alpha beta A P B x = B x"
  unfolding apply_ops_def
  by (induction P arbitrary: B) (simp_all add: apply_op_def)

lemma concat_update_tl:
  "w < length Ws \<Longrightarrow> Ws ! w \<noteq> [] \<Longrightarrow>
     add_mset (hd (Ws ! w)) (mset (concat (Ws[w := tl (Ws ! w)]))) = mset (concat Ws)"
proof (induction Ws arbitrary: w)
  case Nil
  then show ?case by simp
next
  case (Cons W Ws)
  show ?case
  proof (cases w)
    case 0
    then show ?thesis using Cons.prems by (cases W) simp_all
  next
    case (Suc w')
    then show ?thesis using Cons.IH [of w'] Cons.prems by simp
  qed
qed

lemma interleave_mset: "mset (interleave schedule Ws) = mset (concat Ws)"
  by (induction schedule arbitrary: Ws) (simp_all add: concat_update_tl del: mset_concat)

lemma blocking_positive: "0 < blocking' ar (sizeof ft)"
  by (cases ar; cases ft) (simp_all add: blocking'_def blocking_micro'_def)

lemma blocking_divides:
  "blocking_micro' ar s * (blocking' ar s div blocking_micro' ar s) = blocking' ar s"
  by (simp add: blocking'_def)

lemma execute_contract:
  fixes alpha beta :: "'a::{zero,plus,times}"
  assumes v: "valid_descriptor D"
    and plan: "plan \<in> set (createPlans (blocking' ar (sizeof ft)) (fuseIndices D) T)"
  shows "execute ar ft (fuseIndices D) plan schedule alpha beta A B
       = Some (apply_ops alpha beta A (contract_ops D) B)"
proof -
  let ?M = "blocking' ar (sizeof ft)"
  let ?F = "fuseIndices D"
  let ?kern = "if d_perm ?F ! 0 = 0 then constStride1_kernel
               else macro_kernel ?M (blocking_micro' ar (sizeof ft))"
  have wf: "well_formed D" using v by (rule valid_well_formed)
  have d: "1 \<le> length (d_sizeA D)" using v by (simp add: valid_descriptor_def valid_input_def)
  note fused = fuseIndices_preserves [OF wf d]
  have kern: "mset (?kern blocks a b) = image_mset (shift (a, b)) (blocks_span blocks)" for blocks a b
    by (simp add: constStride1_kernel_mset macro_kernel_mset [OF blocking_divides])
  from plan obtain lo par where pl: "plan = createPlan ?M ?F lo par"
    and lo: "length lo = length (d_sizeA ?F)" "mset lo = mset [0..<length (d_sizeA ?F)]"
    and par: "length par = length (d_sizeA ?F)" "\<forall>p\<in>set par. 0 < p"
    by (rule createPlans_cases)
  from createPlan_ops [of ?kern ?M ?F lo par, OF kern blocking_positive _ lo par] fused
  obtain roots Ws where roots: "rootNodes' plan = Some roots"
    and Ws: "those (map (\<lambda>root. walker ?kern root [] 0 0) roots) = Some Ws"
    and ops: "mset (concat Ws) = blocks_span (axis_loops ?F)"
    unfolding pl by blast
  have "mset (interleave schedule Ws) = mset (contract_ops D)"
    using ops fused by (simp only: interleave_mset contract_ops_span [OF wf])
  then have "apply_ops alpha beta A (interleave schedule Ws) B
      = apply_ops alpha beta A (contract_ops D) B"
    using contract_ops_distinct [OF v] by (rule apply_ops_mset)
  then show ?thesis
    unfolding execute_def Let_def by (simp only: roots Ws option.case)
qed

lemma createPlans_nonempty:
  assumes "0 < T" "1 \<le> length (d_sizeA D)"
  shows "createPlans M D T \<noteq> []"
proof -
  let ?d = "length (d_sizeA D)"
  obtain d' where d: "?d = Suc d'" using assms(2) by (cases ?d) simp_all
  have "list_all2 (\<lambda>x ys. x \<in> set ys) [0..<?d] (replicate ?d [0..<?d])"
    by (simp add: list_all2_conv_all_nth)
  then have lo: "[0..<?d] \<in> set (getLoopOrders ?d)"
    by (simp add: getLoopOrders_def product_lists_set)
  have "list_all2 (\<lambda>x ys. x \<in> set ys) (replicate d' (Suc 0)) (replicate d' [Suc 0..<Suc T])"
    using assms(1) by (simp add: list_all2_conv_all_nth del: upt_Suc)
  then have "list_all2 (\<lambda>x ys. x \<in> set ys) (T # replicate d' (Suc 0)) (replicate ?d [Suc 0..<Suc T])"
    using assms(1) by (simp add: d del: upt_Suc)
  then have par: "T # replicate d' (Suc 0) \<in> set (getParallelismStrategies ?d T)"
    by (simp add: getParallelismStrategies_def product_lists_set del: upt_Suc)
  have "createPlan M D [0..<?d] (T # replicate d' (Suc 0)) \<in> set (createPlans M D T)"
    unfolding createPlans_def using lo par by (simp del: upt_Suc) blast
  then show ?thesis by auto
qed

lemma createPlans_fused_nonempty:
  assumes "valid_descriptor D" "0 < T"
  shows "createPlans M (fuseIndices D) T \<noteq> []"
proof -
  have "well_formed D" using assms(1) by (rule valid_well_formed)
  moreover have "1 \<le> length (d_sizeA D)"
    using assms(1) by (simp add: valid_descriptor_def valid_input_def)
  ultimately have "1 \<le> length (d_sizeA (fuseIndices D))"
    using fuseIndices_preserves by blast
  with assms(2) show ?thesis by (rule createPlans_nonempty)
qed

subsection \<open>Thread counts and padding\<close>



text \<open>
  C5.  For every valid input, every plan created for it and every interleaving of the workers,
  execute returns and leaves the elements of B unchanged at the positions that are inside the
  padded outer sizes of B and outside its logical sizes.  This holds with the tiles, whose
  edge need not divide the sizes, with the remainder path and with the split over the
  workers.
\<close>

theorem execute_keeps_padding:
  fixes alpha beta :: "'a::{zero,plus,times}"
  assumes v: "valid_descriptor D"
    and plan: "plan \<in> set (createPlans (blocking' ar (sizeof ft)) (fuseIndices D) T)"
    and j: "in_domain (d_outerSizeB D) j"
    and pad: "\<not> in_domain (sizeB (d_sizeA D) (d_perm D)) j"
  shows "\<exists>B'. execute ar ft (fuseIndices D) plan schedule alpha beta A B = Some B'
            \<and> B' (offset (computeLeadingDimensions (d_outerSizeB D)) j)
                = B (offset (computeLeadingDimensions (d_outerSizeB D)) j)"
proof -
  have "execute ar ft (fuseIndices D) plan schedule alpha beta A B
      = Some (apply_ops alpha beta A (contract_ops D) B)"
    using v plan by (rule execute_contract)
  moreover have "apply_ops alpha beta A (contract_ops D) B
        (offset (computeLeadingDimensions (d_outerSizeB D)) j)
      = B (offset (computeLeadingDimensions (d_outerSizeB D)) j)"
    using contract_ops_padding [OF v j pad] by (rule apply_ops_other)
  ultimately show ?thesis by simp
qed

theorem execute_keeps_padding_witness:
  "valid_descriptor
     \<lparr>d_sizeA = [5, 5], d_perm = [1, 0], d_outerSizeA = [5, 5], d_outerSizeB = [8, 5]\<rparr>
   \<and> createPlan 4 \<lparr>d_sizeA = [5, 5], d_perm = [1, 0], d_outerSizeA = [5, 5],
                    d_outerSizeB = [8, 5]\<rparr> [1, 0] [2, 1]
       \<in> set (createPlans (blocking' ARM (sizeof DoubleComplex))
            (fuseIndices \<lparr>d_sizeA = [5, 5], d_perm = [1, 0], d_outerSizeA = [5, 5],
                          d_outerSizeB = [8, 5]\<rparr>) 2)
   \<and> in_domain [8, 5] [5, 0] \<and> \<not> in_domain (sizeB [5, 5] [1, 0]) [5, 0]
   \<and> offset (computeLeadingDimensions [8, 5]) [5, 0] = 5
   \<and> (\<exists>B'. execute ARM DoubleComplex
              (fuseIndices \<lparr>d_sizeA = [5, 5], d_perm = [1, 0], d_outerSizeA = [5, 5],
                            d_outerSizeB = [8, 5]\<rparr>)
              (createPlan 4 \<lparr>d_sizeA = [5, 5], d_perm = [1, 0], d_outerSizeA = [5, 5],
                             d_outerSizeB = [8, 5]\<rparr> [1, 0] [2, 1])
              [0, 1, 1, 0] 2 3 (\<lambda>a. int a + 1) (\<lambda>b. int b + 100) = Some B'
          \<and> B' 5 = 105)"
proof -
  let ?D = "\<lparr>d_sizeA = [5, 5], d_perm = [1, 0], d_outerSizeA = [5, 5], d_outerSizeB = [8, 5]\<rparr>"
  have valid: "valid_descriptor ?D"
    by code_simp
  have plan: "createPlan 4 ?D [1, 0] [2, 1]
      \<in> set (createPlans (blocking' ARM (sizeof DoubleComplex)) (fuseIndices ?D) 2)"
    by code_simp
  have j: "in_domain (d_outerSizeB ?D) [5, 0]"
    by code_simp
  have pad: "\<not> in_domain (sizeB (d_sizeA ?D) (d_perm ?D)) [5, 0]"
    by code_simp
  have b: "offset (computeLeadingDimensions [8, 5]) [5, 0] = 5"
    by code_simp
  have "\<exists>B'. execute ARM DoubleComplex (fuseIndices ?D) (createPlan 4 ?D [1, 0] [2, 1])
              [0, 1, 1, 0] 2 3 (\<lambda>a. int a + 1) (\<lambda>b. int b + 100) = Some B'
          \<and> B' 5 = 105"
    using execute_keeps_padding [OF valid plan j pad,
        where schedule = "[0, 1, 1, 0]" and alpha = 2 and beta = 3
          and A = "\<lambda>a. int a + 1" and B = "\<lambda>b. int b + 100"]
    unfolding descriptor.simps b by simp
  with valid plan j pad b show ?thesis
    unfolding descriptor.simps by (intro conjI)
qed

end
